theory Spec2Isabelle
  imports Complex_Main
begin

section \<open>The Kuramoto oscillatory network of pyclustering (\<open>nnet/sync/__init__.py\<close>)\<close>

text \<open>
  The module defines the class \<open>sync_network\<close> and the free function
  \<open>phase_normalization\<close>. A Python float is a real number that a double can hold.
  Where the rounding of a result decides what the code does next (the loop of
  \<open>phase_normalization\<close>, the length of \<open>numpy.arange\<close>, the steps of the
  simulations), the operations on floats are a parameter of the model, with the
  exact operations and the operations of IEEE doubles as two instances. The sums
  inside \<open>sync_local_order\<close> and \<open>phase_kuramoto\<close> are formulas of real numbers:
  \<open>math.sin\<close>, \<open>math.exp\<close> and \<open>abs\<close> are \<^term>\<open>sin\<close>, \<^term>\<open>exp\<close> and
  \<^term>\<open>abs\<close> on \<^typ>\<open>real\<close>.
\<close>

subsection \<open>Exceptions\<close>

text \<open>
  The exceptions the code can raise: a list read out of range, a division by
  zero, the \<open>NameError\<close> of \<open>_calculate_phases\<close> with its message, the
  \<open>TypeError\<close> of a string concatenated with a value that is not a string, and
  \<open>append\<close> called on a value that is not a list.
\<close>

datatype error = IndexError | ZeroDivisionError | NameError string | TypeError | AttributeError

text \<open>\<open>xs[i]\<close> for an index \<open>i \<ge> 0\<close>.\<close>

definition getitem :: "'a list \<Rightarrow> nat \<Rightarrow> error + 'a" where
  "getitem xs i = (if i < length xs then Inr (xs ! i) else Inl IndexError)"

subsection \<open>Floating-point arithmetic\<close>

text \<open>
  The operations on floats that the code uses, and the constant \<open>2.0 * pi\<close>.
\<close>

record arith =
  two_pi :: real
  fadd :: "real \<Rightarrow> real \<Rightarrow> real"
  fsub :: "real \<Rightarrow> real \<Rightarrow> real"
  fmul :: "real \<Rightarrow> real \<Rightarrow> real"
  fdiv :: "real \<Rightarrow> real \<Rightarrow> real"

text \<open>Arithmetic without rounding.\<close>

definition exact :: arith where
  "exact = \<lparr>two_pi = 2 * pi, fadd = (+), fsub = (-), fmul = (*), fdiv = (/)\<rparr>"

text \<open>
  The arithmetic of IEEE doubles: every result is rounded to the nearest number with
  53 significant bits, a tie going to the even one. The range of the exponent
  (overflow, subnormal numbers) is not represented. \<open>scipy.pi\<close> is the double
  \<open>884279719003555 / 2^48\<close>, and twice it is a double again.
\<close>

definition round_half_even :: "real \<Rightarrow> int" where
  "round_half_even r =
     (let f = \<lfloor>r\<rfloor>; d = r - of_int f
      in if d < 1 / 2 then f
         else if d > 1 / 2 then f + 1
         else if even f then f else f + 1)"

definition binary64_round :: "real \<Rightarrow> real" where
  "binary64_round x =
     (if x = 0 then 0
      else (let u = 2 powr (of_int \<lfloor>log 2 \<bar>x\<bar>\<rfloor> - 52)
            in of_int (round_half_even (x / u)) * u))"

definition binary64 :: arith where
  "binary64 =
     \<lparr>two_pi = 7074237752028440 / 2 ^ 50,
      fadd = (\<lambda>x y. binary64_round (x + y)),
      fsub = (\<lambda>x y. binary64_round (x - y)),
      fmul = (\<lambda>x y. binary64_round (x * y)),
      fdiv = (\<lambda>x y. binary64_round (x / y))\<rparr>"

subsection \<open>\<open>phase_normalization\<close>\<close>

text \<open>
  \<^verbatim>\<open>
  norm_teta = teta;
  while (norm_teta > (2.0 * pi)) or (norm_teta < 0):
      if (norm_teta > (2.0 * pi)): norm_teta -= 2.0 * pi;
      else:                        norm_teta += 2.0 * pi;
  return norm_teta;
  \<close>
  The loop test and the loop body are named. Nothing bounds the number of
  iterations, so the loop is a partial function: \<open>None\<close> is a call that never
  returns.
\<close>

definition phase_loop_test :: "arith \<Rightarrow> real \<Rightarrow> bool" where
  "phase_loop_test ar norm_teta \<longleftrightarrow> norm_teta > two_pi ar \<or> norm_teta < 0"

definition phase_loop_body :: "arith \<Rightarrow> real \<Rightarrow> real" where
  "phase_loop_body ar norm_teta =
     (if norm_teta > two_pi ar then fsub ar norm_teta (two_pi ar)
      else fadd ar norm_teta (two_pi ar))"

partial_function (option) phase_normalization_loop :: "arith \<Rightarrow> real \<Rightarrow> real option" where
  "phase_normalization_loop ar norm_teta =
     (if phase_loop_test ar norm_teta
      then phase_normalization_loop ar (phase_loop_body ar norm_teta)
      else Some norm_teta)"

definition phase_normalization :: "arith \<Rightarrow> real \<Rightarrow> real option" where
  "phase_normalization ar teta = phase_normalization_loop ar teta"

subsection \<open>The network\<close>

text \<open>
  The fields of a \<open>sync_network\<close> built with \<open>ccore = False\<close>, so that
  \<open>_ccore_network_pointer\<close> is \<open>None\<close> and every method runs its Python body
  (the other branch hands the call to the CCORE library). \<open>num_osc\<close> and
  \<open>has_connection\<close> come from the base class \<open>network\<close>, which is not part of
  the module: the connectivity is a predicate on pairs of indices. \<open>_phases\<close>,
  \<open>_freq\<close> and \<open>_weight\<close> lose their underscore. The constructor draws the
  phases and frequencies at random, so a network here is any value of the record;
  \<open>sync_order\<close> and the destructor are not needed below.
\<close>

record sync_network =
  num_osc :: nat
  has_connection :: "nat \<Rightarrow> nat \<Rightarrow> bool"
  phases :: "real list"
  freq :: "real list"
  weight :: real

text \<open>
  The constructor appends one phase and one frequency per oscillator; the invariant
  of the data model is that both lists have \<open>num_osc\<close> elements.
\<close>

definition consistent :: "sync_network \<Rightarrow> bool" where
  "consistent self \<longleftrightarrow>
     length (phases self) = num_osc self \<and> length (freq self) = num_osc self"

text \<open>
  A method is a function of the network that returns its result, or the exception
  it raised, together with the network it leaves behind.
\<close>

type_synonym 'a outcome = "(error + 'a) \<times> sync_network"

subsection \<open>\<open>sync_local_order\<close>\<close>

text \<open>
  \<^verbatim>\<open>
  exp_amount = 0; num_neigh = 0;
  for i in range(0, self.num_osc, 1):
      for j in range(0, self.num_osc, 1):
          if (self.has_connection(i, j) == True):
              exp_amount += math.exp(-abs(self._phases[j] - self._phases[i]));
              num_neigh += 1;
  if (num_neigh == 0): num_neigh = 1;
  return exp_amount / num_neigh;
  \<close>
\<close>

fun local_order_inner ::
  "sync_network \<Rightarrow> nat \<Rightarrow> nat list \<Rightarrow> real \<times> nat \<Rightarrow> error + real \<times> nat" where
  "local_order_inner self i [] acc = Inr acc"
| "local_order_inner self i (j # js) (exp_amount, num_neigh) =
     (if has_connection self i j = True then
        (case getitem (phases self) j of
           Inl e \<Rightarrow> Inl e
         | Inr phase_j \<Rightarrow>
             (case getitem (phases self) i of
                Inl e \<Rightarrow> Inl e
              | Inr phase_i \<Rightarrow>
                  local_order_inner self i js
                    (exp_amount + exp (- \<bar>phase_j - phase_i\<bar>), num_neigh + 1)))
      else local_order_inner self i js (exp_amount, num_neigh))"

fun local_order_outer ::
  "sync_network \<Rightarrow> nat list \<Rightarrow> real \<times> nat \<Rightarrow> error + real \<times> nat" where
  "local_order_outer self [] acc = Inr acc"
| "local_order_outer self (i # is) acc =
     (case local_order_inner self i [0..<num_osc self] acc of
        Inl e \<Rightarrow> Inl e
      | Inr acc' \<Rightarrow> local_order_outer self is acc')"

definition sync_local_order :: "sync_network \<Rightarrow> real outcome" where
  "sync_local_order self =
     (case local_order_outer self [0..<num_osc self] (0, 0) of
        Inl e \<Rightarrow> (Inl e, self)
      | Inr (exp_amount, num_neigh) \<Rightarrow>
          (let num_neigh = (if num_neigh = 0 then 1 else num_neigh)
           in (Inr (exp_amount / real num_neigh), self)))"

subsection \<open>\<open>phase_kuramoto\<close>\<close>

text \<open>
  \<^verbatim>\<open>
  index = argv; phase = 0;
  for k in range(0, self.num_osc):
      if (self.has_connection(index, k) == True):
          phase += math.sin(self._phases[k] - teta);
  return ( self._freq[index] + (phase * self._weight / self.num_osc) );
  \<close>
  The index is a natural number. The sum is read before the division, so a missing
  frequency is reported before a network without oscillators.
\<close>

fun kuramoto_loop :: "sync_network \<Rightarrow> real \<Rightarrow> nat \<Rightarrow> nat list \<Rightarrow> real \<Rightarrow> error + real" where
  "kuramoto_loop self teta index [] phase = Inr phase"
| "kuramoto_loop self teta index (k # ks) phase =
     (if has_connection self index k = True then
        (case getitem (phases self) k of
           Inl e \<Rightarrow> Inl e
         | Inr phase_k \<Rightarrow> kuramoto_loop self teta index ks (phase + sin (phase_k - teta)))
      else kuramoto_loop self teta index ks phase)"

definition phase_kuramoto :: "sync_network \<Rightarrow> real \<Rightarrow> real \<Rightarrow> nat \<Rightarrow> real outcome" where
  "phase_kuramoto self teta t argv =
     (let index = argv in
      case kuramoto_loop self teta index [0..<num_osc self] 0 of
        Inl e \<Rightarrow> (Inl e, self)
      | Inr phase \<Rightarrow>
          (case getitem (freq self) index of
             Inl e \<Rightarrow> (Inl e, self)
           | Inr freq_index \<Rightarrow>
               if num_osc self = 0 then (Inl ZeroDivisionError, self)
               else (Inr (freq_index + phase * weight self / real (num_osc self)), self)))"

subsection \<open>\<open>allocate_sync_ensembles\<close>\<close>

text \<open>
  \<^verbatim>\<open>
  clusters = [];
  if (self._num_osc > 0): clusters.append([0]);
  for i in range(1, self._num_osc, 1):
      cluster_allocated = False;
      for cluster in clusters:
          for neuron_index in cluster:
              if ( (self._phases[i] < (self._phases[neuron_index] + tolerance)) and
                   (self._phases[i] > (self._phases[neuron_index] - tolerance)) ):
                  cluster_allocated = True;
                  cluster.append(i);
                  break;
          if (cluster_allocated == True): break;
      if (cluster_allocated == False): clusters.append([i]);
  return clusters;
  \<close>
  The innermost loop answers whether a member of the cluster matches; the loop over
  the clusters returns the flag and the clusters, the matching one extended.
\<close>

fun scan_cluster :: "sync_network \<Rightarrow> real \<Rightarrow> nat \<Rightarrow> nat list \<Rightarrow> error + bool" where
  "scan_cluster self tolerance i [] = Inr False"
| "scan_cluster self tolerance i (neuron_index # rest) =
     (case getitem (phases self) i of
        Inl e \<Rightarrow> Inl e
      | Inr phase_i \<Rightarrow>
          (case getitem (phases self) neuron_index of
             Inl e \<Rightarrow> Inl e
           | Inr phase_n \<Rightarrow>
               if phase_i < phase_n + tolerance \<and> phase_i > phase_n - tolerance
               then Inr True
               else scan_cluster self tolerance i rest))"

fun scan_clusters ::
  "sync_network \<Rightarrow> real \<Rightarrow> nat \<Rightarrow> nat list list \<Rightarrow> error + bool \<times> nat list list" where
  "scan_clusters self tolerance i [] = Inr (False, [])"
| "scan_clusters self tolerance i (cluster # rest) =
     (case scan_cluster self tolerance i cluster of
        Inl e \<Rightarrow> Inl e
      | Inr cluster_allocated \<Rightarrow>
          if cluster_allocated = True then Inr (True, (cluster @ [i]) # rest)
          else (case scan_clusters self tolerance i rest of
                  Inl e \<Rightarrow> Inl e
                | Inr (allocated, rest') \<Rightarrow> Inr (allocated, cluster # rest')))"

fun allocate_loop ::
  "sync_network \<Rightarrow> real \<Rightarrow> nat list \<Rightarrow> nat list list \<Rightarrow> error + nat list list" where
  "allocate_loop self tolerance [] clusters = Inr clusters"
| "allocate_loop self tolerance (i # is) clusters =
     (case scan_clusters self tolerance i clusters of
        Inl e \<Rightarrow> Inl e
      | Inr (cluster_allocated, clusters') \<Rightarrow>
          if cluster_allocated = False
          then allocate_loop self tolerance is (clusters' @ [[i]])
          else allocate_loop self tolerance is clusters')"

definition allocate_sync_ensembles :: "sync_network \<Rightarrow> real \<Rightarrow> nat list list outcome" where
  "allocate_sync_ensembles self tolerance =
     (let clusters = (if num_osc self > 0 then [[0]] else [])
      in (allocate_loop self tolerance [1..<num_osc self] clusters, self))"

subsection \<open>Python values\<close>

text \<open>
  The solver tag, \<open>dyn_time\<close> and \<open>dyn_phase\<close> hold \<open>None\<close>, a number, a
  string, a list of numbers or a list of lists, depending on the caller, the flag and
  the path taken: they are Python values.
\<close>

datatype pyval = PNone | PInt int | PFloat real | PStr string | PList "pyval list"

definition vec :: "real list \<Rightarrow> pyval" where
  "vec xs = PList (map PFloat xs)"

fun py_append :: "pyval \<Rightarrow> pyval \<Rightarrow> error + pyval" where
  "py_append (PList xs) x = Inr (PList (xs @ [x]))"
| "py_append PNone x = Inl AttributeError"
| "py_append (PInt v) x = Inl AttributeError"
| "py_append (PFloat v) x = Inl AttributeError"
| "py_append (PStr v) x = Inl AttributeError"

subsection \<open>The solvers and the libraries they use\<close>

text \<open>
  Modelled from the spec: the solver tag (\<open>solve_type\<close> of \<open>pyclustering.nnet\<close>, which
  is not part of the module). The code compares the tag with \<open>solve_type.FAST\<close> and
  \<open>solve_type.RK4\<close>; \<open>OTHER v\<close> is any other Python value \<open>v\<close>, a string or
  not.
\<close>

datatype solve_type = FAST | RK4 | OTHER pyval

text \<open>
  The last branch of \<open>_calculate_phases\<close>:
  \<^verbatim>\<open>raise NameError("Solver '" + solution + "' is not supported");\<close>
  The message is built first. Concatenating a string with a value that is not a
  string raises \<open>TypeError\<close>, and then no \<open>NameError\<close> is made.
\<close>

fun unsupported :: "solve_type \<Rightarrow> error" where
  "unsupported (OTHER (PStr s)) =
     NameError (''Solver '' @ [CHR 0x27] @ s @ [CHR 0x27] @ '' is not supported'')"
| "unsupported solution = TypeError"

text \<open>
  \<open>numpy.arange(start, stop, step)\<close> as numpy documents it: the values
  \<open>start + k * step\<close> for \<open>0 \<le> k < \<lceil>(stop - start) / step\<rceil>\<close>, the length
  computed with the operations on floats. numpy refuses a step of zero.
\<close>

definition arange :: "arith \<Rightarrow> real \<Rightarrow> real \<Rightarrow> real \<Rightarrow> error + real list" where
  "arange ar start stop step =
     (if step = 0 then Inl ZeroDivisionError
      else Inr (map (\<lambda>k. fadd ar start (fmul ar (real k) step))
                  [0..<nat \<lceil>fdiv ar (fsub ar stop start) step\<rceil>]))"

text \<open>
  \<open>scipy.integrate.odeint(func, y0, t, args)\<close> is a parameter of the model: it takes
  the derivative \<open>func(y, t)\<close>, the initial value and the grid, and returns one row
  per grid point, or the exception that left it.
\<close>

type_synonym odeint = "(real \<Rightarrow> real \<Rightarrow> error + real) \<Rightarrow> real \<Rightarrow> real list \<Rightarrow> error + real list list"

text \<open>
  What the statements about the RK4 solver ask of \<open>odeint\<close>: on a grid that is not
  empty and with a derivative that raises nothing, it returns an array of one row
  per grid point, no row empty.
\<close>

definition odeint_returns :: "odeint \<Rightarrow> bool" where
  "odeint_returns od \<longleftrightarrow>
     (\<forall>func y0 grid. grid \<noteq> [] \<and> (\<forall>y t. \<exists>d. func y t = Inr d) \<longrightarrow>
        (\<exists>rows. od func y0 grid = Inr rows \<and> length rows = length grid \<and> [] \<notin> set rows))"

subsection \<open>\<open>_calculate_phases\<close>\<close>

text \<open>
  \<^verbatim>\<open>
  next_phases = [0] * self.num_osc;
  for index in range (0, self.num_osc, 1):
      if (solution == solve_type.FAST):
          result = self._phases[index] + self.phase_kuramoto(self._phases[index], 0, index);
          next_phases[index] = phase_normalization(result);
      elif (solution == solve_type.RK4):
          result = odeint(self.phase_kuramoto, self._phases[index],
                          numpy.arange(t - step, t, int_step), (index , ));
          next_phases[index] = phase_normalization(result[len(result) - 1][0]);
      else:
          raise NameError("Solver '" + solution + "' is not supported");
  return next_phases;
  \<close>
  \<open>odeint\<close> calls the bound method \<open>self.phase_kuramoto\<close> with the index as its
  extra argument; the method leaves the network as it is
  (\<open>phase_kuramoto_network\<close> below), so the callback is its result alone. A call of
  \<open>phase_normalization\<close> that never returns keeps the method from returning:
  the result is \<open>None\<close>.
\<close>

definition last_row_first :: "real list list \<Rightarrow> error + real" where
  "last_row_first result =
     (if length result = 0 then Inl IndexError
      else getitem (result ! (length result - 1)) 0)"

fun calculate_phases_loop ::
  "arith \<Rightarrow> odeint \<Rightarrow> sync_network \<Rightarrow> solve_type \<Rightarrow> real \<Rightarrow> real \<Rightarrow> real \<Rightarrow>
   nat list \<Rightarrow> real list \<Rightarrow> real list outcome option" where
  "calculate_phases_loop ar od self solution t step int_step [] next_phases =
     Some (Inr next_phases, self)"
| "calculate_phases_loop ar od self solution t step int_step (index # rest) next_phases =
     (if solution = FAST then
        (case getitem (phases self) index of
           Inl e \<Rightarrow> Some (Inl e, self)
         | Inr phase_index \<Rightarrow>
             (case phase_kuramoto self phase_index 0 index of
                (Inl e, self') \<Rightarrow> Some (Inl e, self')
              | (Inr derivative, self') \<Rightarrow>
                  (let result = fadd ar phase_index derivative
                   in case phase_normalization ar result of
                        None \<Rightarrow> None
                      | Some normalized \<Rightarrow>
                          calculate_phases_loop ar od self' solution t step int_step rest
                            (next_phases[index := normalized]))))
      else if solution = RK4 then
        (case getitem (phases self) index of
           Inl e \<Rightarrow> Some (Inl e, self)
         | Inr phase_index \<Rightarrow>
             (case arange ar (fsub ar t step) t int_step of
                Inl e \<Rightarrow> Some (Inl e, self)
              | Inr grid \<Rightarrow>
                  (case od (\<lambda>y t'. fst (phase_kuramoto self y t' index)) phase_index grid of
                     Inl e \<Rightarrow> Some (Inl e, self)
                   | Inr result \<Rightarrow>
                       (case last_row_first result of
                          Inl e \<Rightarrow> Some (Inl e, self)
                        | Inr y \<Rightarrow>
                            (case phase_normalization ar y of
                               None \<Rightarrow> None
                             | Some normalized \<Rightarrow>
                                 calculate_phases_loop ar od self solution t step int_step rest
                                   (next_phases[index := normalized]))))))
      else Some (Inl (unsupported solution), self))"

definition calculate_phases ::
  "arith \<Rightarrow> odeint \<Rightarrow> sync_network \<Rightarrow> solve_type \<Rightarrow> real \<Rightarrow> real \<Rightarrow> real \<Rightarrow>
   real list outcome option" where
  "calculate_phases ar od self solution t step int_step =
     (let next_phases = replicate (num_osc self) 0
      in calculate_phases_loop ar od self solution t step int_step
           [0..<num_osc self] next_phases)"

subsection \<open>\<open>simulate_static\<close>\<close>

text \<open>
  \<^verbatim>\<open>
  dyn_phase = None; dyn_time = None;
  if (collect_dynamic == True):
      dyn_phase = []; dyn_time = [];
      dyn_phase.append(self._phases); dyn_time.append(0);
  step = time / steps;
  int_step = step / 10.0;
  for t in numpy.arange(step, time + step, step):
      self._phases = self._calculate_phases(solution, t, step, int_step);
      if (collect_dynamic == True):
          dyn_phase.append(self._phases); dyn_time.append(t);
      else:
          dyn_phase = self._phases; dyn_time = t;
  return (dyn_time, dyn_phase);
  \<close>
  \<open>steps\<close> is a Python integer. \<open>simulate\<close> is \<open>simulate_static\<close> with the
  flag set by default.
\<close>

fun static_loop ::
  "arith \<Rightarrow> odeint \<Rightarrow> sync_network \<Rightarrow> solve_type \<Rightarrow> bool \<Rightarrow> real \<Rightarrow> real \<Rightarrow>
   real list \<Rightarrow> pyval \<Rightarrow> pyval \<Rightarrow> (pyval \<times> pyval) outcome option" where
  "static_loop ar od self solution collect_dynamic step int_step [] dyn_time dyn_phase =
     Some (Inr (dyn_time, dyn_phase), self)"
| "static_loop ar od self solution collect_dynamic step int_step (t # ts) dyn_time dyn_phase =
     (case calculate_phases ar od self solution t step int_step of
        None \<Rightarrow> None
      | Some (Inl e, self') \<Rightarrow> Some (Inl e, self')
      | Some (Inr next_phases, self') \<Rightarrow>
          (let self' = self'\<lparr>phases := next_phases\<rparr> in
           if collect_dynamic = True then
             (case py_append dyn_phase (vec (phases self')) of
                Inl e \<Rightarrow> Some (Inl e, self')
              | Inr dyn_phase' \<Rightarrow>
                  (case py_append dyn_time (PFloat t) of
                     Inl e \<Rightarrow> Some (Inl e, self')
                   | Inr dyn_time' \<Rightarrow>
                       static_loop ar od self' solution collect_dynamic step int_step ts
                         dyn_time' dyn_phase'))
           else
             static_loop ar od self' solution collect_dynamic step int_step ts
               (PFloat t) (vec (phases self'))))"

definition simulate_static ::
  "arith \<Rightarrow> odeint \<Rightarrow> sync_network \<Rightarrow> int \<Rightarrow> real \<Rightarrow> solve_type \<Rightarrow> bool \<Rightarrow>
   (pyval \<times> pyval) outcome option" where
  "simulate_static ar od self steps time solution collect_dynamic =
     (let (dyn_phase, dyn_time) =
            (if collect_dynamic = True then (PList [vec (phases self)], PList [PFloat 0])
             else (PNone, PNone))
      in if steps = 0 then Some (Inl ZeroDivisionError, self)
         else
           (let step = fdiv ar time (real_of_int steps);
                int_step = fdiv ar step 10.0
            in case arange ar step (fadd ar time step) step of
                 Inl e \<Rightarrow> Some (Inl e, self)
               | Inr ts \<Rightarrow>
                   static_loop ar od self solution collect_dynamic step int_step ts
                     dyn_time dyn_phase))"

definition simulate ::
  "arith \<Rightarrow> odeint \<Rightarrow> sync_network \<Rightarrow> int \<Rightarrow> real \<Rightarrow> solve_type \<Rightarrow> bool \<Rightarrow>
   (pyval \<times> pyval) outcome option" where
  "simulate ar od self steps time solution collect_dynamic =
     simulate_static ar od self steps time solution collect_dynamic"

subsection \<open>\<open>simulate_dynamic\<close>\<close>

text \<open>
  \<^verbatim>\<open>
  time_counter = 0;
  previous_order = 0;
  current_order = self.sync_local_order();
  dyn_phase = []; dyn_time = [];
  if (collect_dynamic == True):
      dyn_phase.append(self._phases); dyn_time.append(0);
  while (current_order < order):
      self._phases = self._calculate_phases(solution, time_counter, step, int_step);
      time_counter += step;
      if (collect_dynamic == True):
          dyn_phase.append(self._phases); dyn_time.append(time_counter);
      else:
          dyn_phase = self._phases; dyn_time = time_counter;
      previous_order = current_order;
      current_order = self.sync_local_order();
      if (abs(current_order - previous_order) < threshold_changes):
          print("Warning: sync_network::simulate_dynamic - simulation is aborted due to
                 low level of convergence rate (order = " + str(current_order) + ").");
          break;
  return (dyn_time, dyn_phase);
  \<close>
  The loop has no bound, so its model is a partial function: \<open>None\<close> is a run that
  never returns. What \<open>print\<close> writes is kept as a list of lines beside the network;
  \<open>str\<close> on a float is a parameter.
\<close>

definition warning :: "(real \<Rightarrow> string) \<Rightarrow> real \<Rightarrow> string" where
  "warning str current_order =
     ''Warning: sync_network::simulate_dynamic - simulation is aborted due to low level of convergence rate (order = ''
     @ str current_order @ '').''"

partial_function (option) dynamic_loop ::
  "arith \<Rightarrow> odeint \<Rightarrow> (real \<Rightarrow> string) \<Rightarrow> real \<Rightarrow> solve_type \<Rightarrow> bool \<Rightarrow> real \<Rightarrow> real \<Rightarrow> real \<Rightarrow>
   sync_network \<times> string list \<Rightarrow> real \<Rightarrow> pyval \<Rightarrow> pyval \<Rightarrow> real \<Rightarrow> real \<Rightarrow>
   ((error + pyval \<times> pyval) \<times> sync_network \<times> string list) option" where
  "dynamic_loop ar od str order solution collect_dynamic step int_step threshold_changes
     state time_counter dyn_time dyn_phase previous_order current_order =
     (if current_order < order then
        (case calculate_phases ar od (fst state) solution time_counter step int_step of
           None \<Rightarrow> None
         | Some (Inl e, self') \<Rightarrow> Some (Inl e, self', snd state)
         | Some (Inr next_phases, self') \<Rightarrow>
             (let self' = self'\<lparr>phases := next_phases\<rparr>;
                  time_counter = fadd ar time_counter step
              in case (if collect_dynamic = True then
                         (case py_append dyn_phase (vec (phases self')) of
                            Inl e \<Rightarrow> Inl e
                          | Inr dyn_phase' \<Rightarrow>
                              (case py_append dyn_time (PFloat time_counter) of
                                 Inl e \<Rightarrow> Inl e
                               | Inr dyn_time' \<Rightarrow> Inr (dyn_time', dyn_phase')))
                       else Inr (PFloat time_counter, vec (phases self'))) of
                   Inl e \<Rightarrow> Some (Inl e, self', snd state)
                 | Inr (dyn_time, dyn_phase) \<Rightarrow>
                     (let previous_order = current_order
                      in case sync_local_order self' of
                           (Inl e, self') \<Rightarrow> Some (Inl e, self', snd state)
                         | (Inr current_order, self') \<Rightarrow>
                             if \<bar>fsub ar current_order previous_order\<bar> < threshold_changes
                             then Some (Inr (dyn_time, dyn_phase), self',
                                        snd state @ [warning str current_order])
                             else dynamic_loop ar od str order solution collect_dynamic step
                                    int_step threshold_changes (self', snd state) time_counter
                                    dyn_time dyn_phase previous_order current_order)))
      else Some (Inr (dyn_time, dyn_phase), state))"

definition simulate_dynamic ::
  "arith \<Rightarrow> odeint \<Rightarrow> (real \<Rightarrow> string) \<Rightarrow> sync_network \<times> string list \<Rightarrow> real \<Rightarrow> solve_type \<Rightarrow>
   bool \<Rightarrow> real \<Rightarrow> real \<Rightarrow> real \<Rightarrow>
   ((error + pyval \<times> pyval) \<times> sync_network \<times> string list) option" where
  "simulate_dynamic ar od str state order solution collect_dynamic step int_step
     threshold_changes =
     (let time_counter = 0;
          previous_order = 0
      in case sync_local_order (fst state) of
           (Inl e, self') \<Rightarrow> Some (Inl e, self', snd state)
         | (Inr current_order, self') \<Rightarrow>
             (let (dyn_phase, dyn_time) =
                    (if collect_dynamic = True
                     then (PList [vec (phases self')], PList [PFloat 0])
                     else (PList [], PList []))
              in dynamic_loop ar od str order solution collect_dynamic step int_step
                   threshold_changes (self', snd state) time_counter dyn_time dyn_phase
                   previous_order current_order))"

subsection \<open>The formulas of the specification\<close>

text \<open>
  The local order as the specification words it: the ordered pairs \<open>(i, j)\<close> of
  oscillators with a connection, the sum of \<open>exp (- |\<theta>\<^sub>j - \<theta>\<^sub>i|)\<close> over them, divided
  by their number or by one.
\<close>

definition connected_pairs :: "sync_network \<Rightarrow> (nat \<times> nat) list" where
  "connected_pairs self =
     [(i, j). i \<leftarrow> [0..<num_osc self], j \<leftarrow> [0..<num_osc self], has_connection self i j]"

definition local_order_formula :: "sync_network \<Rightarrow> real" where
  "local_order_formula self =
     (\<Sum>(i, j)\<leftarrow>connected_pairs self. exp (- \<bar>phases self ! j - phases self ! i\<bar>))
       / real (max 1 (length (connected_pairs self)))"

text \<open>
  Greedy first-fit as the specification words it: oscillator \<open>i\<close> joins the first
  cluster, in creation order, that has a member \<open>m\<close> with \<open>|\<theta>\<^sub>i - \<theta>\<^sub>m| < tolerance\<close>,
  and opens a cluster of its own when there is none; index \<open>0\<close> seeds the first
  cluster and the other indices follow in ascending order.
\<close>

definition within_tolerance :: "sync_network \<Rightarrow> real \<Rightarrow> nat \<Rightarrow> nat \<Rightarrow> bool" where
  "within_tolerance self tolerance i m \<longleftrightarrow> \<bar>phases self ! i - phases self ! m\<bar> < tolerance"

fun first_fit :: "sync_network \<Rightarrow> real \<Rightarrow> nat \<Rightarrow> nat list list \<Rightarrow> nat list list" where
  "first_fit self tolerance i [] = [[i]]"
| "first_fit self tolerance i (cluster # rest) =
     (if \<exists>m\<in>set cluster. within_tolerance self tolerance i m
      then (cluster @ [i]) # rest
      else cluster # first_fit self tolerance i rest)"

definition greedy_first_fit :: "sync_network \<Rightarrow> real \<Rightarrow> nat list list" where
  "greedy_first_fit self tolerance = fold (first_fit self tolerance) [1..<num_osc self] [[0]]"

text \<open>
  The trajectory of \<open>simulate_dynamic\<close> as the specification words it: the times
  and the phase vectors of consecutive iterations, index-aligned. Each time is the
  one before plus the step, and each phase vector is what \<open>_calculate_phases\<close>
  makes of the one before.
\<close>

definition consecutive ::
  "arith \<Rightarrow> odeint \<Rightarrow> sync_network \<Rightarrow> solve_type \<Rightarrow> real \<Rightarrow> real \<Rightarrow>
   real list \<Rightarrow> real list list \<Rightarrow> bool" where
  "consecutive ar od self solution step int_step ts ps \<longleftrightarrow>
     length ts = length ps \<and>
     (\<forall>k<length ps - 1.
        ts ! Suc k = fadd ar (ts ! k) step \<and>
        calculate_phases ar od (self\<lparr>phases := ps ! k\<rparr>) solution (ts ! k) step int_step =
          Some (Inr (ps ! Suc k), self\<lparr>phases := ps ! k\<rparr>))"

subsection \<open>Small networks for the examples\<close>

text \<open>
  Two oscillators linked to each other with equal phases; two oscillators without
  any link; four oscillators, the third close to the first and the fourth close to
  the third only.
\<close>

definition netA :: sync_network where
  "netA = \<lparr>num_osc = 2, has_connection = (\<lambda>i j. i \<noteq> j), phases = [0, 0], freq = [1, 2], weight = 1\<rparr>"

definition netB :: sync_network where
  "netB = \<lparr>num_osc = 2, has_connection = (\<lambda>i j. False), phases = [0, 1], freq = [0, 0], weight = 1\<rparr>"

definition netC :: sync_network where
  "netC = \<lparr>num_osc = 4, has_connection = (\<lambda>i j. i \<noteq> j), phases = [0, 1, 0.008, 0.016],
            freq = [0, 0, 0, 0], weight = 1\<rparr>"

text \<open>
  A stand-in for \<open>odeint\<close> where an example needs a solver: it holds the initial
  value at every grid point.
\<close>

definition odeint_hold :: odeint where
  "odeint_hold func y0 grid = Inr (map (\<lambda>t. [y0]) grid)"

text \<open>
  Two oscillators half a turn apart whose frequencies bring them together in one
  step, and a stand-in for \<open>str\<close>.
\<close>

definition netE :: sync_network where
  "netE = \<lparr>num_osc = 2, has_connection = (\<lambda>i j. i \<noteq> j), phases = [0, pi], freq = [pi, 0], weight = 0\<rparr>"

definition str_stub :: "real \<Rightarrow> string" where
  "str_stub r = ''<float>''"

section \<open>Rounding to doubles\<close>

lemma floor_log2:
  assumes "2 powr of_int e \<le> \<bar>x\<bar>" and "\<bar>x\<bar> < 2 powr (of_int e + 1)"
  shows "\<lfloor>log 2 \<bar>x\<bar>\<rfloor> = e"
proof -
  have "0 < (2::real) powr of_int e" by simp
  with assms(1) have pos: "0 < \<bar>x\<bar>" by linarith
  from assms(1) pos have "of_int e \<le> log 2 \<bar>x\<bar>" by (simp add: le_log_iff)
  moreover from assms(2) pos have "log 2 \<bar>x\<bar> < of_int e + 1" by (simp add: log_less_iff)
  ultimately show ?thesis by (simp add: floor_eq_iff)
qed

lemma binary64_round_at:
  assumes "2 powr of_int e \<le> \<bar>x\<bar>" and "\<bar>x\<bar> < 2 powr (of_int e + 1)"
  shows "binary64_round x =
         of_int (round_half_even (x / 2 powr (of_int e - 52))) * 2 powr (of_int e - 52)"
proof -
  have "0 < (2::real) powr of_int e" by simp
  with assms(1) have "x \<noteq> 0" by auto
  with floor_log2 [OF assms] show ?thesis by (simp add: binary64_round_def Let_def)
qed

lemma round_absorbed:
  "binary64_round (10 ^ 17 - 7074237752028440 / 2 ^ 50) = 10 ^ 17"
proof -
  let ?x = "10 ^ 17 - 7074237752028440 / 2 ^ 50 :: real"
  have "2 powr of_int 56 \<le> \<bar>?x\<bar>" "\<bar>?x\<bar> < 2 powr (of_int 56 + 1)" by simp_all
  from binary64_round_at [OF this] show ?thesis
    by (simp add: round_half_even_def Let_def)
qed

lemma round_small_negative:
  "binary64_round (- 6646139978924579 / 2 ^ 119 + 7074237752028440 / 2 ^ 50) =
   7074237752028440 / 2 ^ 50"
proof -
  let ?x = "- 6646139978924579 / 2 ^ 119 + 7074237752028440 / 2 ^ 50 :: real"
  have "2 powr of_int 2 \<le> \<bar>?x\<bar>" "\<bar>?x\<bar> < 2 powr (of_int 2 + 1)" by simp_all
  from binary64_round_at [OF this] show ?thesis
    by (simp add: round_half_even_def Let_def powr_neg_numeral)
qed

section \<open>Phase normalization\<close>

lemma phase_normalization_loop_exit:
  "\<not> phase_loop_test ar x \<Longrightarrow> phase_normalization_loop ar x = Some x"
  by (subst phase_normalization_loop.simps) simp

lemma phase_normalization_loop_iter:
  "phase_loop_test ar x \<Longrightarrow>
   phase_normalization_loop ar x = phase_normalization_loop ar (phase_loop_body ar x)"
  by (subst phase_normalization_loop.simps) simp

lemma phase_normalization_loop_result:
  assumes "phase_normalization_loop ar x = Some v"
  shows "\<not> phase_loop_test ar v"
  using assms
proof (induction rule: phase_normalization_loop.raw_induct [rotated 1, consumes 1])
  case (1 loop ar x v)
  show ?case
  proof (cases "phase_loop_test ar x")
    case True
    with "1" (2) have "loop ar (phase_loop_body ar x) = Some v" by simp
    then show ?thesis by (rule "1" (1))
  next
    case False
    with "1" (2) show ?thesis by simp
  qed
qed

lemma phase_normalization_loop_iterations:
  assumes "phase_normalization_loop ar x = Some v"
  shows "\<exists>n. (\<forall>m<n. phase_loop_test ar ((phase_loop_body ar ^^ m) x)) \<and>
             \<not> phase_loop_test ar ((phase_loop_body ar ^^ n) x) \<and>
             v = (phase_loop_body ar ^^ n) x"
  using assms
proof (induction rule: phase_normalization_loop.raw_induct [rotated 1, consumes 1])
  case (1 loop ar x v)
  show ?case
  proof (cases "phase_loop_test ar x")
    case False
    with "1" (2) have "v = x" by simp
    with False have "(\<forall>m<0. phase_loop_test ar ((phase_loop_body ar ^^ m) x)) \<and>
             \<not> phase_loop_test ar ((phase_loop_body ar ^^ 0) x) \<and>
             v = (phase_loop_body ar ^^ 0) x"
      by simp
    then show ?thesis by blast
  next
    case True
    with "1" (2) have "loop ar (phase_loop_body ar x) = Some v" by simp
    from "1" (1) [OF this] obtain n where n:
      "\<forall>m<n. phase_loop_test ar ((phase_loop_body ar ^^ m) (phase_loop_body ar x))"
      "\<not> phase_loop_test ar ((phase_loop_body ar ^^ n) (phase_loop_body ar x))"
      "v = (phase_loop_body ar ^^ n) (phase_loop_body ar x)"
      by blast
    have b: "\<forall>m<Suc n. phase_loop_test ar ((phase_loop_body ar ^^ m) x)"
    proof (intro allI impI)
      fix m assume "m < Suc n"
      show "phase_loop_test ar ((phase_loop_body ar ^^ m) x)"
      proof (cases m)
        case 0
        with True show ?thesis by simp
      next
        case (Suc j)
        with \<open>m < Suc n\<close> n(1) show ?thesis by (simp add: funpow_swap1)
      qed
    qed
    have a: "\<not> phase_loop_test ar ((phase_loop_body ar ^^ Suc n) x)"
      using n(2) by (simp add: funpow_swap1)
    have c: "v = (phase_loop_body ar ^^ Suc n) x"
      using n(3) by (simp add: funpow_swap1)
    from a b c show ?thesis by blast
  qed
qed

lemma phase_normalization_loop_stuck:
  assumes "phase_loop_test ar x" and "phase_loop_body ar x = x"
  shows "phase_normalization_loop ar x = None"
proof (rule ccontr)
  assume "phase_normalization_loop ar x \<noteq> None"
  then obtain v where v: "phase_normalization_loop ar x = Some v" by auto
  have "phase_normalization_loop ar' x' = Some v' \<Longrightarrow> ar' = ar \<and> x' = x \<longrightarrow> False" for ar' x' v'
  proof (induction rule: phase_normalization_loop.raw_induct [rotated 1, consumes 1])
    case (1 loop ar' x' v')
    show ?case
    proof
      assume e: "ar' = ar \<and> x' = x"
      with "1" (2) assms have "loop ar x = Some v'" by simp
      with e have "loop ar' x' = Some v'" by simp
      from "1" (1) [OF this] e show False by simp
    qed
  qed
  from this [OF v] show False by simp
qed

lemma phase_normalization_exact_returns:
  "\<exists>v. phase_normalization_loop exact x = Some v"
proof (induction x rule: measure_induct_rule [of
    "\<lambda>x. if x > 2 * pi then nat \<lceil>x / (2 * pi)\<rceil> else if x < 0 then nat \<lceil>- x / (2 * pi)\<rceil> else 0"])
  case (less x)
  let ?m = "\<lambda>x::real. if x > 2 * pi then nat \<lceil>x / (2 * pi)\<rceil>
            else if x < 0 then nat \<lceil>- x / (2 * pi)\<rceil> else 0"
  show ?case
  proof (cases "phase_loop_test exact x")
    case False
    then show ?thesis by (simp add: phase_normalization_loop_exit)
  next
    case test: True
    have p: "0 < 2 * pi" by simp
    have dec: "?m (phase_loop_body exact x) < ?m x"
    proof (cases "x > 2 * pi")
      case True
      from True have q: "1 < x / (2 * pi)" using p by (simp add: field_simps)
      have e: "(x - 2 * pi) / (2 * pi) = x / (2 * pi) - 1"
        by (simp add: field_simps)
      have c: "\<lceil>(x - 2 * pi) / (2 * pi)\<rceil> = \<lceil>x / (2 * pi)\<rceil> - 1"
        unfolding e by simp
      from q have big: "1 < \<lceil>x / (2 * pi)\<rceil>" by (simp add: less_ceiling_iff)
      then have d: "nat (\<lceil>x / (2 * pi)\<rceil> - 1) < nat \<lceil>x / (2 * pi)\<rceil>" by linarith
      show ?thesis
      proof (cases "x - 2 * pi > 2 * pi")
        case True
        with \<open>x > 2 * pi\<close> c d show ?thesis
          by (simp add: phase_loop_body_def exact_def)
      next
        case False
        moreover from \<open>x > 2 * pi\<close> have "\<not> x - 2 * pi < 0" by simp
        moreover from big have "0 < nat \<lceil>x / (2 * pi)\<rceil>" by linarith
        ultimately show ?thesis using \<open>x > 2 * pi\<close>
          by (simp add: phase_loop_body_def exact_def)
      qed
    next
      case False
      with test have neg: "x < 0" by (simp add: phase_loop_test_def exact_def)
      from neg have q: "0 < - x / (2 * pi)" using p by (simp add: field_simps)
      then have pos: "0 < \<lceil>- x / (2 * pi)\<rceil>" by (simp add: less_ceiling_iff)
      have e: "- (x + 2 * pi) / (2 * pi) = - x / (2 * pi) - 1"
        by (simp add: field_simps)
      have c: "\<lceil>- (x + 2 * pi) / (2 * pi)\<rceil> = \<lceil>- x / (2 * pi)\<rceil> - 1"
        unfolding e by simp
      from neg p have nb: "\<not> x + 2 * pi > 2 * pi" by simp
      show ?thesis
      proof (cases "x + 2 * pi < 0")
        case True
        with neg nb False c pos show ?thesis
          by (simp add: phase_loop_body_def exact_def)
      next
        case nn: False
        with neg nb False pos show ?thesis
          by (simp add: phase_loop_body_def exact_def)
      qed
    qed
    from less [OF dec] obtain v where "phase_normalization_loop exact (phase_loop_body exact x) = Some v"
      by blast
    with test show ?thesis by (simp add: phase_normalization_loop_iter)
  qed
qed

text \<open>
  C1, as the specification states it, fails: the loop stops as soon as the value is
  not above \<open>2.0 * pi\<close>, so the double \<open>2.0 * pi\<close> itself is returned as it is,
  and it is not below that bound.
\<close>

theorem phase_normalization_half_open_counterexample:
  "\<not> (\<exists>v. phase_normalization binary64 (two_pi binary64) = Some v \<and>
          0 \<le> v \<and> v < two_pi binary64)"
  by (simp add: phase_normalization_def phase_normalization_loop_exit phase_loop_test_def
      binary64_def)

text \<open>
  C1 (amended): whenever \<open>phase_normalization\<close> returns, with whatever rounding the
  additions and subtractions have, the value lies in the closed interval from \<open>0\<close>
  to \<open>2.0 * pi\<close>, the interval of the function's docstring. (The witness is the
  double \<open>-1e-20\<close>, on which one addition rounds to \<open>2.0 * pi\<close> exactly.)
\<close>

theorem phase_normalization_closed_interval:
  assumes "phase_normalization ar teta = Some v"
  shows "0 \<le> v \<and> v \<le> two_pi ar"
  using phase_normalization_loop_result [of ar teta v] assms
  by (simp add: phase_normalization_def phase_loop_test_def not_less)

theorem phase_normalization_closed_interval_witness:
  "phase_normalization binary64 (- 6646139978924579 / 2 ^ 119) = Some (two_pi binary64) \<and>
   0 \<le> two_pi binary64 \<and> two_pi binary64 \<le> two_pi binary64"
proof -
  let ?x = "- 6646139978924579 / 2 ^ 119 :: real"
  have t: "phase_loop_test binary64 ?x" by (simp add: phase_loop_test_def)
  then have nb: "\<not> ?x > two_pi binary64" by (simp add: binary64_def)
  have b: "phase_loop_body binary64 ?x = two_pi binary64"
    using round_small_negative by (simp add: phase_loop_body_def binary64_def)
  have e: "\<not> phase_loop_test binary64 (two_pi binary64)"
    by (simp add: phase_loop_test_def binary64_def)
  have r: "phase_normalization binary64 ?x = Some (two_pi binary64)"
    unfolding phase_normalization_def phase_normalization_loop_iter [OF t] b
    by (rule phase_normalization_loop_exit [OF e])
  from phase_normalization_closed_interval [OF r] r show ?thesis by simp
qed

text \<open>
  C2 fails on the code. On the finite double \<open>1e17\<close> the loop test holds and the
  subtraction of \<open>2.0 * pi\<close> is absorbed by the rounding: the loop body leaves the
  value as it is, and \<open>phase_normalization\<close> never returns. (Without rounding the
  loop ends on every real number, \<open>phase_normalization_exact_returns\<close>.)
\<close>

theorem phase_normalization_absorbed:
  "phase_normalization binary64 (10 ^ 17) = None"
proof -
  have t: "phase_loop_test binary64 (10 ^ 17)"
    by (simp add: phase_loop_test_def binary64_def)
  have b: "phase_loop_body binary64 (10 ^ 17) = 10 ^ 17"
    using round_absorbed by (simp add: phase_loop_body_def binary64_def)
  from phase_normalization_loop_stuck [OF t b] show ?thesis
    by (simp add: phase_normalization_def)
qed

section \<open>Order and derivative\<close>

lemma upt_2: "[0..<2] = [0, 1]" by (simp add: upt_rec)
lemma upt_04: "[0..<4] = [0, 1, 2, 3]" by (simp add: upt_rec)

lemma getitem_in_range: "i < length xs \<Longrightarrow> getitem xs i = Inr (xs ! i)"
  by (simp add: getitem_def)

lemma local_order_inner_value:
  assumes "i < length (phases self)" and "\<forall>j\<in>set js. j < length (phases self)"
  shows "local_order_inner self i js (e, c) =
         Inr (e + (\<Sum>j\<leftarrow>filter (has_connection self i) js.
                     exp (- \<bar>phases self ! j - phases self ! i\<bar>)),
              c + length (filter (has_connection self i) js))"
  using assms
  by (induction js arbitrary: e c) (simp_all add: getitem_in_range algebra_simps)

lemma local_order_outer_value:
  assumes "\<forall>i\<in>set is. i < length (phases self)" and "num_osc self \<le> length (phases self)"
  shows "local_order_outer self is (e, c) =
         Inr (e + (\<Sum>(i, j)\<leftarrow>[(i, j). i \<leftarrow> is, j \<leftarrow> [0..<num_osc self], has_connection self i j].
                     exp (- \<bar>phases self ! j - phases self ! i\<bar>)),
              c + length [(i, j). i \<leftarrow> is, j \<leftarrow> [0..<num_osc self], has_connection self i j])"
  using assms
proof (induction "is" arbitrary: e c)
  case Nil
  then show ?case by simp
next
  case (Cons i "is")
  have inner: "local_order_inner self i [0..<num_osc self] (e, c) =
         Inr (e + (\<Sum>j\<leftarrow>filter (has_connection self i) [0..<num_osc self].
                     exp (- \<bar>phases self ! j - phases self ! i\<bar>)),
              c + length (filter (has_connection self i) [0..<num_osc self]))"
    using Cons.prems by (intro local_order_inner_value) auto
  have row: "concat (map (\<lambda>j. if has_connection self i j then [(i, j)] else []) js) =
             map (Pair i) (filter (has_connection self i) js)" for js
    by (induction js) simp_all
  show ?case
    using Cons.prems
    by (simp add: inner Cons.IH row comp_def algebra_simps)
qed

lemma sync_local_order_value:
  assumes "consistent self"
  shows "sync_local_order self = (Inr (local_order_formula self), self)"
proof -
  have "local_order_outer self [0..<num_osc self] (0, 0) =
         Inr (0 + (\<Sum>(i, j)\<leftarrow>connected_pairs self.
                     exp (- \<bar>phases self ! j - phases self ! i\<bar>)),
              0 + length (connected_pairs self))"
    unfolding connected_pairs_def
    using assms by (intro local_order_outer_value) (simp_all add: consistent_def)
  then show ?thesis
    by (cases "connected_pairs self")
       (simp_all add: sync_local_order_def local_order_formula_def)
qed

lemma kuramoto_loop_value:
  assumes "\<forall>k\<in>set ks. k < length (phases self)"
  shows "kuramoto_loop self teta index ks phase =
         Inr (phase + (\<Sum>k\<leftarrow>filter (has_connection self index) ks. sin (phases self ! k - teta)))"
  using assms
  by (induction ks arbitrary: phase) (simp_all add: getitem_in_range algebra_simps)

lemma phase_kuramoto_network: "snd (phase_kuramoto self teta t argv) = self"
  by (simp add: phase_kuramoto_def split: sum.splits)

lemma phase_kuramoto_value:
  assumes "consistent self" and "i < num_osc self"
  shows "phase_kuramoto self teta t i =
         (Inr (freq self ! i + weight self / real (num_osc self) *
                 (\<Sum>j\<leftarrow>filter (has_connection self i) [0..<num_osc self].
                    sin (phases self ! j - teta))), self)"
proof -
  have "kuramoto_loop self teta i [0..<num_osc self] 0 =
         Inr (0 + (\<Sum>k\<leftarrow>filter (has_connection self i) [0..<num_osc self].
                     sin (phases self ! k - teta)))"
    using assms by (intro kuramoto_loop_value) (simp add: consistent_def)
  with assms show ?thesis
    by (simp add: phase_kuramoto_def getitem_in_range consistent_def)
qed

text \<open>
  C5: on a network whose lists have \<open>num_osc\<close> elements, \<open>sync_local_order\<close> returns
  the sum of \<open>exp (- |\<theta>\<^sub>j - \<theta>\<^sub>i|)\<close> over the ordered pairs \<open>(i, j)\<close> with a connection,
  divided by the greater of one and the number of these pairs, and leaves the network as
  it is. On a network without connections it does not fail: it divides by one and
  returns zero.
\<close>

theorem sync_local_order_formula:
  assumes "consistent self"
  shows "sync_local_order self = (Inr (local_order_formula self), self) \<and>
         (connected_pairs self = [] \<longrightarrow> sync_local_order self = (Inr 0, self))"
proof -
  from assms have v: "sync_local_order self = (Inr (local_order_formula self), self)"
    by (rule sync_local_order_value)
  have "connected_pairs self = [] \<Longrightarrow> local_order_formula self = 0"
    by (simp add: local_order_formula_def)
  with v show ?thesis by simp
qed

theorem sync_local_order_formula_witness:
  "consistent netA \<and> sync_local_order netA = (Inr 1, netA) \<and>
   consistent netB \<and> connected_pairs netB = [] \<and> sync_local_order netB = (Inr 0, netB)"
proof -
  have cA: "consistent netA" by (simp add: consistent_def netA_def)
  have cB: "consistent netB" by (simp add: consistent_def netB_def)
  have pB: "connected_pairs netB = []" by (simp add: connected_pairs_def netB_def)
  have fA: "local_order_formula netA = 1"
    by (simp add: local_order_formula_def connected_pairs_def netA_def upt_2)
  from sync_local_order_formula [OF cA] fA
  have a: "sync_local_order netA = (Inr 1, netA)" by simp
  from sync_local_order_formula [OF cB] pB
  have b: "sync_local_order netB = (Inr 0, netB)" by blast
  from a b cA cB pB show ?thesis by blast
qed

text \<open>
  C6: for an index \<open>i\<close> below \<open>num_osc\<close>, any phase \<open>teta\<close> and any time \<open>t\<close>,
  \<open>phase_kuramoto\<close> returns \<open>freq\<^sub>i + (weight / num_osc) * \<Sum> sin (\<theta>\<^sub>j - teta)\<close>, the sum
  over the oscillators \<open>j\<close> connected to \<open>i\<close> with the phases of the network as they
  are. The time does not occur in the result, and the network returned is the
  network given.
\<close>

theorem phase_kuramoto_formula:
  assumes "consistent self" and "i < num_osc self"
  shows "phase_kuramoto self teta t i =
         (Inr (freq self ! i + weight self / real (num_osc self) *
                 (\<Sum>j\<leftarrow>filter (has_connection self i) [0..<num_osc self].
                    sin (phases self ! j - teta))), self)"
  using assms by (rule phase_kuramoto_value)

theorem phase_kuramoto_formula_witness:
  "consistent netA \<and> 0 < num_osc netA \<and> phase_kuramoto netA 0 5 0 = (Inr 1, netA)"
proof -
  have cA: "consistent netA" by (simp add: consistent_def netA_def)
  have n: "0 < num_osc netA" by (simp add: netA_def)
  from phase_kuramoto_formula [OF cA n, of 0 5] cA n show ?thesis
    by (simp add: netA_def upt_2)
qed

section \<open>Synchronous ensembles\<close>

lemma scan_cluster_value:
  assumes "i < length (phases self)" and "\<forall>m\<in>set cluster. m < length (phases self)"
  shows "scan_cluster self tolerance i cluster =
         Inr (\<exists>m\<in>set cluster. within_tolerance self tolerance i m)"
  using assms
proof (induction cluster)
  case Nil
  then show ?case by simp
next
  case (Cons m cluster)
  have "within_tolerance self tolerance i m \<longleftrightarrow>
        phases self ! i < phases self ! m + tolerance \<and>
        phases self ! i > phases self ! m - tolerance"
    by (auto simp: within_tolerance_def abs_less_iff)
  with Cons show ?case by (auto simp: getitem_in_range)
qed

lemma first_fit_no_match:
  "\<forall>cluster\<in>set clusters. \<not> (\<exists>m\<in>set cluster. within_tolerance self tolerance i m) \<Longrightarrow>
   first_fit self tolerance i clusters = clusters @ [[i]]"
  by (induction clusters) simp_all

lemma scan_clusters_value:
  assumes "i < length (phases self)"
    and "\<forall>cluster\<in>set clusters. \<forall>m\<in>set cluster. m < length (phases self)"
  shows "scan_clusters self tolerance i clusters =
         (if \<exists>cluster\<in>set clusters. \<exists>m\<in>set cluster. within_tolerance self tolerance i m
          then Inr (True, first_fit self tolerance i clusters)
          else Inr (False, clusters))"
  using assms
proof (induction clusters)
  case Nil
  then show ?case by simp
next
  case (Cons cluster clusters)
  then have sc: "scan_cluster self tolerance i cluster =
         Inr (\<exists>m\<in>set cluster. within_tolerance self tolerance i m)"
    by (intro scan_cluster_value) simp_all
  from Cons have ih: "scan_clusters self tolerance i clusters =
         (if \<exists>cluster\<in>set clusters. \<exists>m\<in>set cluster. within_tolerance self tolerance i m
          then Inr (True, first_fit self tolerance i clusters)
          else Inr (False, clusters))"
    by simp
  show ?case by (simp add: sc ih)
qed

lemma first_fit_members:
  "set (concat (first_fit self tolerance i clusters)) = insert i (set (concat clusters))"
  by (induction clusters) auto

lemma first_fit_distinct:
  "distinct (concat clusters) \<Longrightarrow> i \<notin> set (concat clusters) \<Longrightarrow>
   distinct (concat (first_fit self tolerance i clusters))"
proof (induction clusters)
  case Nil
  then show ?case by simp
next
  case (Cons c cs)
  have m: "set (concat (first_fit self tolerance i cs)) = insert i (set (concat cs))"
    by (rule first_fit_members)
  from Cons.prems have d: "distinct c" "distinct (concat cs)" "set c \<inter> set (concat cs) = {}"
    "i \<notin> set c" "i \<notin> set (concat cs)"
    by auto
  from Cons.IH d have ih: "distinct (concat (first_fit self tolerance i cs))" by simp
  show ?case
  proof (cases "\<exists>m\<in>set c. within_tolerance self tolerance i m")
    case True
    with d show ?thesis by auto
  next
    case False
    from d m have "set c \<inter> set (concat (first_fit self tolerance i cs)) = {}" by auto
    with False d ih show ?thesis by simp
  qed
qed

lemma allocate_loop_value:
  assumes "\<forall>i\<in>set is. i < length (phases self)"
    and "\<forall>cluster\<in>set clusters. \<forall>m\<in>set cluster. m < length (phases self)"
  shows "allocate_loop self tolerance is clusters =
         Inr (fold (first_fit self tolerance) is clusters)"
  using assms
proof (induction "is" arbitrary: clusters)
  case Nil
  then show ?case by simp
next
  case (Cons i "is")
  from Cons.prems have sc: "scan_clusters self tolerance i clusters =
         (if \<exists>cluster\<in>set clusters. \<exists>m\<in>set cluster. within_tolerance self tolerance i m
          then Inr (True, first_fit self tolerance i clusters)
          else Inr (False, clusters))"
    by (intro scan_clusters_value) simp_all
  have "set (concat (first_fit self tolerance i clusters)) = insert i (set (concat clusters))"
    by (rule first_fit_members)
  with Cons.prems
  have inv: "\<forall>cluster\<in>set (first_fit self tolerance i clusters). \<forall>m\<in>set cluster. m < length (phases self)"
    by auto
  from Cons.prems have rest: "\<forall>i\<in>set is. i < length (phases self)" by simp
  note ih = Cons.IH [OF rest inv]
  show ?case
  proof (cases "\<exists>cluster\<in>set clusters. \<exists>m\<in>set cluster. within_tolerance self tolerance i m")
    case True
    with sc ih show ?thesis by simp
  next
    case False
    then have "first_fit self tolerance i clusters = clusters @ [[i]]"
      by (intro first_fit_no_match) blast
    with False sc ih show ?thesis by simp
  qed
qed

lemma fold_first_fit_partition:
  assumes "distinct is" and "set is \<inter> set (concat clusters) = {}" and "distinct (concat clusters)"
  shows "distinct (concat (fold (first_fit self tolerance) is clusters)) \<and>
         set (concat (fold (first_fit self tolerance) is clusters)) = set is \<union> set (concat clusters)"
  using assms
proof (induction "is" arbitrary: clusters)
  case Nil
  then show ?case by simp
next
  case (Cons i "is")
  let ?cs = "first_fit self tolerance i clusters"
  have m: "set (concat ?cs) = insert i (set (concat clusters))" by (rule first_fit_members)
  from Cons.prems have d: "distinct (concat ?cs)" by (intro first_fit_distinct) auto
  from Cons.prems m have "set is \<inter> set (concat ?cs) = {}" by auto
  with Cons.prems d Cons.IH [of ?cs] m show ?case by auto
qed

lemma allocate_sync_ensembles_value:
  assumes "consistent self" and "1 \<le> num_osc self"
  shows "allocate_sync_ensembles self tolerance = (Inr (greedy_first_fit self tolerance), self)"
proof -
  have "allocate_loop self tolerance [1..<num_osc self] [[0]] =
        Inr (fold (first_fit self tolerance) [1..<num_osc self] [[0]])"
    using assms by (intro allocate_loop_value) (simp_all add: consistent_def)
  with assms show ?thesis
    by (simp add: allocate_sync_ensembles_def greedy_first_fit_def)
qed

lemma greedy_first_fit_partition:
  assumes "1 \<le> num_osc self"
  shows "distinct (concat (greedy_first_fit self tolerance)) \<and>
         set (concat (greedy_first_fit self tolerance)) = {0..<num_osc self}"
proof -
  have "distinct (concat (fold (first_fit self tolerance) [1..<num_osc self] [[0]])) \<and>
        set (concat (fold (first_fit self tolerance) [1..<num_osc self] [[0]])) =
          set [1..<num_osc self] \<union> set (concat [[0::nat]])"
    by (intro fold_first_fit_partition) simp_all
  moreover from assms have "set [1..<num_osc self] \<union> set (concat [[0::nat]]) = {0..<num_osc self}"
    by auto
  ultimately show ?thesis by (simp add: greedy_first_fit_def)
qed

lemma distinct_concat_disjoint:
  "distinct (concat cs) \<Longrightarrow> k < k' \<Longrightarrow> k' < length cs \<Longrightarrow> set (cs ! k) \<inter> set (cs ! k') = {}"
proof (induction cs arbitrary: k k')
  case Nil
  then show ?case by simp
next
  case (Cons c cs)
  show ?case
  proof (cases k)
    case 0
    with Cons.prems obtain j where j: "k' = Suc j" "j < length cs" by (cases k') auto
    from j(2) have "cs ! j \<in> set cs" by (rule nth_mem)
    then have "set (cs ! j) \<subseteq> set (concat cs)" by auto
    with Cons.prems(1) 0 j show ?thesis by auto
  next
    case (Suc i)
    with Cons.prems obtain j where j: "k' = Suc j" "j < length cs" "i < j" by (cases k') auto
    with Cons.prems(1) Cons.IH [of i j] Suc show ?thesis by simp
  qed
qed

lemma partition_unique_cluster:
  assumes "distinct (concat cs)" and "i \<in> set (concat cs)"
  shows "\<exists>!k. k < length cs \<and> i \<in> set (cs ! k)"
proof -
  from assms(2) obtain c where "c \<in> set cs" "i \<in> set c" by auto
  then obtain k where k: "k < length cs" "i \<in> set (cs ! k)" by (auto simp: in_set_conv_nth)
  have "k' = k" if "k' < length cs" "i \<in> set (cs ! k')" for k'
  proof (rule ccontr)
    assume "k' \<noteq> k"
    then consider "k < k'" | "k' < k" by linarith
    then show False
    proof cases
      case 1
      from distinct_concat_disjoint [OF assms(1) 1 that(1)] k that show False by auto
    next
      case 2
      from distinct_concat_disjoint [OF assms(1) 2 k(1)] k that show False by auto
    qed
  qed
  with k show ?thesis by blast
qed



text \<open>
  C4: on a network whose lists have \<open>num_osc\<close> elements, and for every tolerance,
  the clusters returned by \<open>allocate_sync_ensembles\<close> are a partition of the indices
  below \<open>num_osc\<close>: no index occurs twice in the concatenation of the clusters (neither
  within one cluster nor in two), the indices that occur are those below \<open>num_osc\<close>,
  and every such index lies in exactly one cluster.
\<close>

theorem allocate_sync_ensembles_partition:
  assumes "consistent self"
  shows "\<exists>clusters. allocate_sync_ensembles self tolerance = (Inr clusters, self) \<and>
           distinct (concat clusters) \<and> set (concat clusters) = {0..<num_osc self} \<and>
           (\<forall>i<num_osc self. \<exists>!k. k < length clusters \<and> i \<in> set (clusters ! k))"
proof (cases "num_osc self = 0")
  case True
  then have "allocate_sync_ensembles self tolerance = (Inr [], self)"
    by (simp add: allocate_sync_ensembles_def)
  with True show ?thesis by simp
next
  case False
  then have n: "1 \<le> num_osc self" by simp
  let ?cs = "greedy_first_fit self tolerance"
  from assms n have v: "allocate_sync_ensembles self tolerance = (Inr ?cs, self)"
    by (rule allocate_sync_ensembles_value)
  from n have p: "distinct (concat ?cs)" "set (concat ?cs) = {0..<num_osc self}"
    using greedy_first_fit_partition [of self tolerance] by simp_all
  have "\<forall>i<num_osc self. \<exists>!k. k < length ?cs \<and> i \<in> set (?cs ! k)"
  proof (intro allI impI)
    fix i assume "i < num_osc self"
    with p(2) have "i \<in> set (concat ?cs)" by simp
    with p(1) show "\<exists>!k. k < length ?cs \<and> i \<in> set (?cs ! k)"
      by (rule partition_unique_cluster)
  qed
  with v p show ?thesis by blast
qed

theorem allocate_sync_ensembles_partition_witness:
  "consistent netC \<and>
   (\<exists>clusters. allocate_sync_ensembles netC 0.01 = (Inr clusters, netC) \<and>
      distinct (concat clusters) \<and> set (concat clusters) = {0..<4} \<and>
      (\<forall>i<4. \<exists>!k. k < length clusters \<and> i \<in> set (clusters ! k)))"
proof -
  have cC: "consistent netC" by (simp add: consistent_def netC_def)
  have n: "num_osc netC = 4" by (simp add: netC_def)
  from allocate_sync_ensembles_partition [OF cC, of "0.01"] cC show ?thesis
    unfolding n by simp
qed

section \<open>One step of the simulation\<close>

lemma calculate_phases_loop_network:
  "calculate_phases_loop ar od self solution t step int_step indices next_phases = Some (r, s) \<Longrightarrow>
   s = self"
proof (induction indices arbitrary: next_phases)
  case Nil
  then show ?case by simp
next
  case (Cons index rest)
  have pk: "snd (phase_kuramoto self y t' index) = self" for y t'
    by (rule phase_kuramoto_network)
  show ?case
  proof (cases solution)
    case FAST
    show ?thesis
    proof (cases "getitem (phases self) index")
      case (Inl e)
      with FAST Cons.prems show ?thesis by simp
    next
      case (Inr p)
      obtain r' s' where rs: "phase_kuramoto self p 0 index = (r', s')"
        by (cases "phase_kuramoto self p 0 index")
      with pk [of p 0] have s: "s' = self" by simp
      show ?thesis
      proof (cases r')
        case (Inl e)
        with FAST Inr rs s Cons.prems show ?thesis by simp
      next
        case d: (Inr derivative)
        show ?thesis
        proof (cases "phase_normalization ar (fadd ar p derivative)")
          case None
          with FAST Inr rs s d Cons.prems show ?thesis by simp
        next
          case (Some normalized)
          with FAST Inr rs s d Cons.prems
          have "calculate_phases_loop ar od self solution t step int_step rest
                  (next_phases[index := normalized]) = Some (r, s)"
            by simp
          then show ?thesis by (rule Cons.IH)
        qed
      qed
    qed
  next
    case RK4
    show ?thesis
    proof (cases "getitem (phases self) index")
      case (Inl e)
      with RK4 Cons.prems show ?thesis by simp
    next
      case p: (Inr p)
      show ?thesis
      proof (cases "arange ar (fsub ar t step) t int_step")
        case (Inl e)
        with RK4 p Cons.prems show ?thesis by simp
      next
        case g: (Inr grid)
        show ?thesis
        proof (cases "od (\<lambda>y t'. fst (phase_kuramoto self y t' index)) p grid")
          case (Inl e)
          with RK4 p g Cons.prems show ?thesis by simp
        next
          case rows: (Inr rows)
          show ?thesis
          proof (cases "last_row_first rows")
            case (Inl e)
            with RK4 p g rows Cons.prems show ?thesis by simp
          next
            case y: (Inr y)
            show ?thesis
            proof (cases "phase_normalization ar y")
              case None
              with RK4 p g rows y Cons.prems show ?thesis by simp
            next
              case (Some normalized)
              with RK4 p g rows y Cons.prems
              have "calculate_phases_loop ar od self solution t step int_step rest
                      (next_phases[index := normalized]) = Some (r, s)"
                by simp
              then show ?thesis by (rule Cons.IH)
            qed
          qed
        qed
      qed
    qed
  next
    case (OTHER x)
    with Cons.prems show ?thesis by simp
  qed
qed

lemma calculate_phases_network:
  "calculate_phases ar od self solution t step int_step = Some (r, s) \<Longrightarrow> s = self"
  unfolding calculate_phases_def Let_def by (rule calculate_phases_loop_network)

lemma calculate_phases_unsupported:
  assumes "solution \<noteq> FAST" and "solution \<noteq> RK4" and "0 < num_osc self"
  shows "calculate_phases ar od self solution t step int_step =
           Some (Inl (unsupported solution), self)"
proof -
  from assms(3) have "[0..<num_osc self] = 0 # [1..<num_osc self]"
    by (simp add: upt_conv_Cons)
  with assms(1,2) show ?thesis by (simp add: calculate_phases_def)
qed

lemma calculate_phases_unsupported_string:
  assumes "0 < num_osc self"
  shows "calculate_phases ar od self (OTHER (PStr s)) t step int_step =
           Some (Inl (NameError (''Solver '' @ [CHR 0x27] @ s @ [CHR 0x27] @ '' is not supported'')),
                 self)"
  using calculate_phases_unsupported [of "OTHER (PStr s)" self ar od t step int_step] assms
  by simp

lemma calculate_phases_unsupported_not_string:
  assumes "0 < num_osc self" and "\<forall>s. v \<noteq> PStr s"
  shows "calculate_phases ar od self (OTHER v) t step int_step = Some (Inl TypeError, self)"
proof -
  from assms(2) have "unsupported (OTHER v) = TypeError" by (cases v) simp_all
  with calculate_phases_unsupported [of "OTHER v" self ar od t step int_step] assms(1)
  show ?thesis by simp
qed

lemma calculate_phases_without_oscillators:
  "num_osc self = 0 \<Longrightarrow>
   calculate_phases ar od self solution t step int_step = Some (Inr [], self)"
  by (simp add: calculate_phases_def)

lemma arange_grid:
  assumes "0 < fdiv ar (fsub ar t (fsub ar t step)) int_step" and "int_step \<noteq> 0"
  shows "\<exists>grid. arange ar (fsub ar t step) t int_step = Inr grid \<and> grid \<noteq> []"
proof -
  from assms(1) have "0 < \<lceil>fdiv ar (fsub ar t (fsub ar t step)) int_step\<rceil>"
    by (simp add: less_ceiling_iff)
  then have "[0..<nat \<lceil>fdiv ar (fsub ar t (fsub ar t step)) int_step\<rceil>] \<noteq> []" by simp
  with assms(2) show ?thesis by (simp add: arange_def)
qed

lemma last_row_first_value:
  assumes "rows \<noteq> []" and "[] \<notin> set rows"
  shows "\<exists>y. last_row_first rows = Inr y"
proof -
  from assms(1) have "rows ! (length rows - 1) \<in> set rows" by simp
  with assms(2) have "rows ! (length rows - 1) \<noteq> []" by metis
  then have "0 < length (rows ! (length rows - 1))" by simp
  with assms(1) show ?thesis by (simp add: last_row_first_def getitem_def)
qed

lemma odeint_returnsD:
  assumes "odeint_returns od" and "grid \<noteq> []" and "\<forall>y t. \<exists>d. func y t = Inr d"
  shows "\<exists>rows. od func y0 grid = Inr rows \<and> length rows = length grid \<and> [] \<notin> set rows"
proof -
  from assms(1) have "grid \<noteq> [] \<and> (\<forall>y t. \<exists>d. func y t = Inr d) \<longrightarrow>
        (\<exists>rows. od func y0 grid = Inr rows \<and> length rows = length grid \<and> [] \<notin> set rows)"
    unfolding odeint_returns_def by (elim allE)
  with assms(2,3) show ?thesis by (elim impE) (intro conjI, assumption+)
qed

lemma calculate_phases_loop_returns:
  assumes "consistent self"
    and "\<forall>index\<in>set indices. index < num_osc self"
    and "\<forall>y. \<exists>v. phase_normalization ar y = Some v"
    and "solution = FAST \<or>
         (solution = RK4 \<and> odeint_returns od \<and> int_step \<noteq> 0 \<and>
          0 < fdiv ar (fsub ar t (fsub ar t step)) int_step)"
    and "length next_phases = num_osc self"
  shows "\<exists>result. calculate_phases_loop ar od self solution t step int_step indices next_phases =
           Some (Inr result, self) \<and> length result = num_osc self"
  using assms(2,5)
proof (induction indices arbitrary: next_phases)
  case Nil
  then show ?case by simp
next
  case (Cons index rest)
  from Cons.prems have i: "index < num_osc self" and r: "\<forall>index\<in>set rest. index < num_osc self"
    by simp_all
  from assms(1) i have g: "getitem (phases self) index = Inr (phases self ! index)"
    by (simp add: getitem_def consistent_def)
  from assms(4) show ?case
  proof
    assume f: "solution = FAST"
    from assms(1) i obtain d where d:
      "phase_kuramoto self (phases self ! index) 0 index = (Inr d, self)"
      using phase_kuramoto_value by blast
    from assms(3) obtain v where v: "phase_normalization ar (fadd ar (phases self ! index) d) = Some v"
      by blast
    let ?np = "next_phases[index := v]"
    from Cons.prems have "length ?np = num_osc self" by simp
    from Cons.IH [OF r this] f g d v show ?thesis by simp
  next
    assume a: "solution = RK4 \<and> odeint_returns od \<and> int_step \<noteq> 0 \<and>
          0 < fdiv ar (fsub ar t (fsub ar t step)) int_step"
    then obtain grid where grid: "arange ar (fsub ar t step) t int_step = Inr grid" "grid \<noteq> []"
      using arange_grid by blast
    let ?f = "\<lambda>y t'. fst (phase_kuramoto self y t' index)"
    have total: "\<forall>y t'. \<exists>d. ?f y t' = Inr d"
      using phase_kuramoto_value [OF assms(1) i] by simp
    from a have "odeint_returns od" by simp
    from odeint_returnsD [OF this grid(2) total, of "phases self ! index"] obtain rows where rows:
      "od ?f (phases self ! index) grid = Inr rows" "length rows = length grid" "[] \<notin> set rows"
      by blast
    from rows(2) grid(2) have "rows \<noteq> []" by auto
    with rows(3) obtain y where y: "last_row_first rows = Inr y"
      using last_row_first_value by blast
    from assms(3) obtain v where v: "phase_normalization ar y = Some v" by blast
    let ?np = "next_phases[index := v]"
    from Cons.prems have "length ?np = num_osc self" by simp
    from Cons.IH [OF r this] a g grid(1) rows(1) y v show ?thesis by simp
  qed
qed

lemma calculate_phases_returns:
  assumes "consistent self"
    and "\<forall>y. \<exists>v. phase_normalization ar y = Some v"
    and "solution = FAST \<or>
         (solution = RK4 \<and> odeint_returns od \<and> int_step \<noteq> 0 \<and>
          0 < fdiv ar (fsub ar t (fsub ar t step)) int_step)"
  shows "\<exists>result. calculate_phases ar od self solution t step int_step = Some (Inr result, self) \<and>
           length result = num_osc self"
  unfolding calculate_phases_def Let_def
  using assms by (intro calculate_phases_loop_returns) simp_all

text \<open>
  C7 fails on the code. For the tag \<open>2\<close>, an integer as the members of an
  enumeration are, the last branch of \<open>_calculate_phases\<close> raises \<open>TypeError\<close>
  while it builds the message, so that no \<open>NameError\<close>, the error the
  specification calls the unsupported-solver error, is raised. The network is left as
  it was. (For a tag that is a string the \<open>NameError\<close> is raised,
  \<open>calculate_phases_unsupported_string\<close>; without oscillators the loop body never
  runs, \<open>calculate_phases_without_oscillators\<close>.)
\<close>

theorem calculate_phases_integer_tag:
  "calculate_phases ar od netA (OTHER (PInt 2)) t step int_step = Some (Inl TypeError, netA) \<and>
   (\<forall>message. calculate_phases ar od netA (OTHER (PInt 2)) t step int_step \<noteq>
      Some (Inl (NameError message), netA))"
proof -
  have "0 < num_osc netA" by (simp add: netA_def)
  then have "calculate_phases ar od netA (OTHER (PInt 2)) t step int_step =
      Some (Inl TypeError, netA)"
    by (rule calculate_phases_unsupported_not_string) simp
  then show ?thesis by simp
qed

section \<open>Static simulation\<close>

lemma static_loop_collect:
  assumes returns: "\<forall>y. \<exists>v. phase_normalization ar y = Some v"
    and solver: "solution = FAST \<or>
         (solution = RK4 \<and> odeint_returns od \<and> int_step \<noteq> 0 \<and>
          (\<forall>t. 0 < fdiv ar (fsub ar t (fsub ar t step)) int_step))"
    and "consistent self"
  shows "\<exists>qs self'.
           static_loop ar od self solution True step int_step ts
             (PList (map PFloat ts0)) (PList (map vec ps0)) =
             Some (Inr (PList (map PFloat (ts0 @ ts)), PList (map vec (ps0 @ qs))), self') \<and>
           length qs = length ts \<and>
           phases self' = last (phases self # qs) \<and>
           (\<forall>k<length ts.
              calculate_phases ar od (self\<lparr>phases := (phases self # qs) ! k\<rparr>) solution
                     (ts ! k) step int_step =
              Some (Inr (qs ! k), self\<lparr>phases := (phases self # qs) ! k\<rparr>))"
  using assms(3)
proof (induction ts arbitrary: self ts0 ps0)
  case Nil
  then show ?case by simp
next
  case (Cons t ts)
  from solver have solver_t: "solution = FAST \<or>
         (solution = RK4 \<and> odeint_returns od \<and> int_step \<noteq> 0 \<and>
          0 < fdiv ar (fsub ar t (fsub ar t step)) int_step)"
    by blast
  from calculate_phases_returns [OF Cons.prems returns solver_t] obtain result where
    res: "calculate_phases ar od self solution t step int_step = Some (Inr result, self)"
      "length result = num_osc self"
    by blast
  let ?self1 = "self\<lparr>phases := result\<rparr>"
  from Cons.prems res(2) have c1: "consistent ?self1" by (simp add: consistent_def)
  from Cons.IH [OF c1, of "ts0 @ [t]" "ps0 @ [result]"] obtain qs self' where ih:
    "static_loop ar od ?self1 solution True step int_step ts
       (PList (map PFloat (ts0 @ [t]))) (PList (map vec (ps0 @ [result]))) =
       Some (Inr (PList (map PFloat ((ts0 @ [t]) @ ts)), PList (map vec ((ps0 @ [result]) @ qs))), self')"
    "length qs = length ts"
    "phases self' = last (phases ?self1 # qs)"
    "\<forall>k<length ts.
        calculate_phases ar od (?self1\<lparr>phases := (phases ?self1 # qs) ! k\<rparr>) solution
               (ts ! k) step int_step =
        Some (Inr (qs ! k), ?self1\<lparr>phases := (phases ?self1 # qs) ! k\<rparr>)"
    by blast
  have run: "static_loop ar od self solution True step int_step (t # ts)
       (PList (map PFloat ts0)) (PList (map vec ps0)) =
       Some (Inr (PList (map PFloat (ts0 @ t # ts)), PList (map vec (ps0 @ result # qs))), self')"
    using res(1) ih(1) by simp
  have len: "length (result # qs) = length (t # ts)" using ih(2) by simp
  have fin: "phases self' = last (phases self # result # qs)" using ih(3) by simp
  have chain: "\<forall>k<length (t # ts).
        calculate_phases ar od (self\<lparr>phases := (phases self # result # qs) ! k\<rparr>) solution
               ((t # ts) ! k) step int_step =
        Some (Inr ((result # qs) ! k), self\<lparr>phases := (phases self # result # qs) ! k\<rparr>)"
  proof (intro allI impI)
    fix k assume k: "k < length (t # ts)"
    show "calculate_phases ar od (self\<lparr>phases := (phases self # result # qs) ! k\<rparr>) solution
               ((t # ts) ! k) step int_step =
          Some (Inr ((result # qs) ! k), self\<lparr>phases := (phases self # result # qs) ! k\<rparr>)"
    proof (cases k)
      case 0
      with res(1) show ?thesis by simp
    next
      case (Suc j)
      with k have "j < length ts" by simp
      with ih(4) have "calculate_phases ar od (?self1\<lparr>phases := (phases ?self1 # qs) ! j\<rparr>)
               solution (ts ! j) step int_step =
          Some (Inr (qs ! j), ?self1\<lparr>phases := (phases ?self1 # qs) ! j\<rparr>)"
        by blast
      with Suc show ?thesis by simp
    qed
  qed
  from run len fin chain show ?case by blast
qed

lemma arange_exact_steps:
  assumes "0 < steps" and "0 < time"
  shows "arange exact (time / real_of_int steps) (time + time / real_of_int steps)
           (time / real_of_int steps) =
         Inr (map (\<lambda>k. time / real_of_int steps + real k * (time / real_of_int steps)) [0..<nat steps])"
proof -
  let ?step = "time / real_of_int steps"
  have "(time + ?step - ?step) / ?step = real_of_int steps"
    using assms by simp
  then have c: "\<lceil>(time + ?step - ?step) / ?step\<rceil> = steps" by simp
  from assms have nz: "?step \<noteq> 0" by simp
  have "arange exact ?step (time + ?step) ?step =
        (if ?step = 0 then Inl ZeroDivisionError
         else Inr (map (\<lambda>k. ?step + real k * ?step) [0..<nat \<lceil>(time + ?step - ?step) / ?step\<rceil>]))"
    by (simp add: arange_def exact_def)
  then show ?thesis unfolding c using nz by (simp only: if_False)
qed

lemma time_stamps:
  "0 # map (\<lambda>k. step + real k * step) [0..<n] = map (\<lambda>k. real k * step) [0..<n + 1]"
proof -
  have "[0..<n + 1] = 0 # map Suc [0..<n]"
    by (simp add: upt_conv_Cons map_Suc_upt del: upt_Suc)
  then show ?thesis by (simp add: comp_def algebra_simps del: upt_Suc)
qed

lemma time_stamps_increasing:
  assumes "0 < (step::real)"
  shows "sorted_wrt (<) (map (\<lambda>k. real k * step) [0..<n])"
proof -
  have "sorted_wrt (<) [0..<n]" by simp
  then have "sorted_wrt (\<lambda>i j. real i * step < real j * step) [0..<n]"
    by (rule sorted_wrt_mono_rel [rotated]) (use assms in simp)
  then show ?thesis by (simp add: sorted_wrt_map)
qed

lemma phase_normalization_exact_total: "\<forall>y. \<exists>v. phase_normalization exact y = Some v"
  using phase_normalization_exact_returns by (simp add: phase_normalization_def)

lemma simulate_static_collect_exact:
  assumes "consistent self" and "0 < steps" and "0 < time"
    and "solution = FAST \<or> (solution = RK4 \<and> odeint_returns od)"
  shows "\<exists>ts ps self'.
           simulate_static exact od self steps time solution True =
             Some (Inr (PList (map PFloat ts), PList (map vec ps)), self') \<and>
           length ts = nat steps + 1 \<and> length ps = nat steps + 1 \<and>
           ts = map (\<lambda>k. real k * (time / real_of_int steps)) [0..<nat steps + 1] \<and>
           sorted_wrt (<) ts \<and>
           ps ! 0 = phases self \<and> phases self' = last ps \<and>
           (\<forall>k<nat steps.
              calculate_phases exact od (self\<lparr>phases := ps ! k\<rparr>) solution (ts ! (k + 1))
                     (time / real_of_int steps) (time / real_of_int steps / 10) =
              Some (Inr (ps ! (k + 1)), self\<lparr>phases := ps ! k\<rparr>))"
proof -
  let ?step = "time / real_of_int steps"
  let ?grid = "map (\<lambda>k. ?step + real k * ?step) [0..<nat steps]"
  from assms(2,3) have pos: "0 < ?step" by simp
  from assms(2,3) have nz: "?step / 10 \<noteq> 0" by simp
  from assms(2,3) have "?step / (?step / 10) = 10" by simp
  then have ratio: "\<forall>t. 0 < fdiv exact (fsub exact t (fsub exact t ?step)) (?step / 10)"
    by (simp add: exact_def)
  from assms(4) ratio nz
  have solver: "solution = FAST \<or>
         (solution = RK4 \<and> odeint_returns od \<and> ?step / 10 \<noteq> 0 \<and>
          (\<forall>t. 0 < fdiv exact (fsub exact t (fsub exact t ?step)) (?step / 10)))"
    by blast
  from static_loop_collect [OF phase_normalization_exact_total solver assms(1),
      of ?grid "[0]" "[phases self]"]
  obtain qs self' where run:
    "static_loop exact od self solution True ?step (?step / 10) ?grid
       (PList (map PFloat [0])) (PList (map vec [phases self])) =
       Some (Inr (PList (map PFloat ([0] @ ?grid)), PList (map vec ([phases self] @ qs))), self')"
    "length qs = length ?grid"
    "phases self' = last (phases self # qs)"
    "\<forall>k<length ?grid.
        calculate_phases exact od (self\<lparr>phases := (phases self # qs) ! k\<rparr>) solution
               (?grid ! k) ?step (?step / 10) =
        Some (Inr (qs ! k), self\<lparr>phases := (phases self # qs) ! k\<rparr>)"
    by blast
  let ?ts = "0 # ?grid"
  let ?ps = "phases self # qs"
  from assms(2) have snz: "steps \<noteq> 0" by simp
  have ar: "arange exact ?step (time + ?step) ?step = Inr ?grid"
    by (rule arange_exact_steps [OF assms(2,3)])
  have ops: "fdiv exact time (real_of_int steps) = ?step" "fdiv exact ?step 10 = ?step / 10"
    "fadd exact time ?step = time + ?step"
    by (simp_all add: exact_def)
  have sim: "simulate_static exact od self steps time solution True =
             Some (Inr (PList (map PFloat ?ts), PList (map vec ?ps)), self')"
    using run(1) snz by (simp add: simulate_static_def ops ar Let_def)
  have l1: "length ?ts = nat steps + 1" by simp
  have l2: "length ?ps = nat steps + 1" using run(2) by simp
  have stamps: "?ts = map (\<lambda>k. real k * ?step) [0..<nat steps + 1]"
    by (rule time_stamps)
  have incr: "sorted_wrt (<) ?ts"
    unfolding stamps using pos by (rule time_stamps_increasing)
  have first: "?ps ! 0 = phases self" by simp
  have fin: "phases self' = last ?ps" using run(3) by simp
  have chain: "\<forall>k<nat steps.
      calculate_phases exact od (self\<lparr>phases := ?ps ! k\<rparr>) solution (?ts ! (k + 1))
             ?step (?step / 10) = Some (Inr (?ps ! (k + 1)), self\<lparr>phases := ?ps ! k\<rparr>)"
  proof (intro allI impI)
    fix k assume "k < nat steps"
    then have "k < length ?grid" by simp
    with run(4) have "calculate_phases exact od (self\<lparr>phases := ?ps ! k\<rparr>) solution
               (?grid ! k) ?step (?step / 10) = Some (Inr (qs ! k), self\<lparr>phases := ?ps ! k\<rparr>)"
      by blast
    then show "calculate_phases exact od (self\<lparr>phases := ?ps ! k\<rparr>) solution (?ts ! (k + 1))
             ?step (?step / 10) = Some (Inr (?ps ! (k + 1)), self\<lparr>phases := ?ps ! k\<rparr>)"
      by simp
  qed
  from sim l1 l2 stamps incr first fin chain show ?thesis
    by (intro exI [of _ ?ts] exI [of _ ?ps] exI [of _ self'] conjI)
qed

lemma replicate_2: "replicate 2 x = [x, x]"
  by (simp add: numeral_2_eq_2)

lemma round_one: "binary64_round 1 = 1"
proof -
  have "2 powr of_int 0 \<le> \<bar>1::real\<bar>" "\<bar>1::real\<bar> < 2 powr (of_int 0 + 1)" by simp_all
  from binary64_round_at [OF this] show ?thesis
    by (simp add: round_half_even_def Let_def powr_neg_numeral)
qed

lemma round_step: "binary64_round (3602879701896397 / 2 ^ 56) = 3602879701896397 / 2 ^ 56"
proof -
  let ?x = "3602879701896397 / 2 ^ 56 :: real"
  have "2 powr of_int (- 5) \<le> \<bar>?x\<bar>" "\<bar>?x\<bar> < 2 powr (of_int (- 5) + 1)"
    by (simp_all add: powr_neg_numeral)
  from binary64_round_at [OF this] show ?thesis
    by (simp add: round_half_even_def Let_def powr_neg_numeral)
qed

lemma round_time: "binary64_round (3602879701896397 / 2 ^ 55) = 3602879701896397 / 2 ^ 55"
proof -
  let ?x = "3602879701896397 / 2 ^ 55 :: real"
  have "2 powr of_int (- 4) \<le> \<bar>?x\<bar>" "\<bar>?x\<bar> < 2 powr (of_int (- 4) + 1)"
    by (simp_all add: powr_neg_numeral)
  from binary64_round_at [OF this] show ?thesis
    by (simp add: round_half_even_def Let_def powr_neg_numeral)
qed

lemma round_stop:
  "binary64_round (3602879701896397 / 2 ^ 55 + 3602879701896397 / 2 ^ 56) =
   5404319552844596 / 2 ^ 55"
proof -
  let ?x = "3602879701896397 / 2 ^ 55 + 3602879701896397 / 2 ^ 56 :: real"
  have "2 powr of_int (- 3) \<le> \<bar>?x\<bar>" "\<bar>?x\<bar> < 2 powr (of_int (- 3) + 1)"
    by (simp_all add: powr_neg_numeral)
  from binary64_round_at [OF this] show ?thesis
    by (simp add: round_half_even_def Let_def powr_neg_numeral)
qed

lemma round_difference:
  "binary64_round (5404319552844596 / 2 ^ 55 - 3602879701896397 / 2 ^ 56) =
   7205759403792795 / 2 ^ 56"
proof -
  let ?x = "5404319552844596 / 2 ^ 55 - 3602879701896397 / 2 ^ 56 :: real"
  have "2 powr of_int (- 4) \<le> \<bar>?x\<bar>" "\<bar>?x\<bar> < 2 powr (of_int (- 4) + 1)"
    by (simp_all add: powr_neg_numeral)
  from binary64_round_at [OF this] show ?thesis
    by (simp add: round_half_even_def Let_def powr_neg_numeral)
qed

lemma round_quotient:
  "binary64_round (7205759403792795 / 2 ^ 56 / (3602879701896397 / 2 ^ 56)) =
   4503599627370497 / 2 ^ 51"
proof -
  let ?x = "7205759403792795 / 2 ^ 56 / (3602879701896397 / 2 ^ 56) :: real"
  have "2 powr of_int 1 \<le> \<bar>?x\<bar>" "\<bar>?x\<bar> < 2 powr (of_int 1 + 1)"
    by (simp_all add: powr_neg_numeral)
  from binary64_round_at [OF this] show ?thesis
    by (simp add: round_half_even_def Let_def powr_neg_numeral)
qed

lemma arange_binary64_three:
  "arange binary64 (3602879701896397 / 2 ^ 56) (5404319552844596 / 2 ^ 55)
     (3602879701896397 / 2 ^ 56) =
   Inr [3602879701896397 / 2 ^ 56, 3602879701896397 / 2 ^ 55, 5404319552844596 / 2 ^ 55]"
proof -
  let ?step = "3602879701896397 / 2 ^ 56 :: real"
  let ?stop = "5404319552844596 / 2 ^ 55 :: real"
  have q: "fdiv binary64 (fsub binary64 ?stop ?step) ?step = 4503599627370497 / 2 ^ 51"
    by (simp only: binary64_def arith.simps round_difference round_quotient)
  have c: "nat \<lceil>4503599627370497 / 2 ^ 51 :: real\<rceil> = 3" by simp
  have u: "[0..<3] = [0, 1, 2]" by (simp add: upt_rec)
  have m0: "fmul binary64 (real 0) ?step = 0"
    by (simp add: binary64_def binary64_round_def)
  have m1: "fmul binary64 (real 1) ?step = ?step"
    using round_step by (simp add: binary64_def)
  have m2: "fmul binary64 (real 2) ?step = 3602879701896397 / 2 ^ 55"
    using round_time by (simp add: binary64_def)
  have a0: "fadd binary64 ?step 0 = ?step"
    using round_step by (simp add: binary64_def)
  have a1: "fadd binary64 ?step ?step = 3602879701896397 / 2 ^ 55"
    using round_time by (simp add: binary64_def)
  have a2: "fadd binary64 ?step (3602879701896397 / 2 ^ 55) = ?stop"
    using round_stop by (simp add: binary64_def add.commute)
  have nz: "?step \<noteq> 0" by simp
  have "arange binary64 ?step ?stop ?step =
        Inr (map (\<lambda>k. fadd binary64 ?step (fmul binary64 (real k) ?step)) [0..<3])"
    unfolding arange_def q c using nz by (simp only: if_False)
  also have "map (\<lambda>k. fadd binary64 ?step (fmul binary64 (real k) ?step)) [0..<3] =
        [fadd binary64 ?step (fmul binary64 (real 0) ?step),
         fadd binary64 ?step (fmul binary64 (real 1) ?step),
         fadd binary64 ?step (fmul binary64 (real 2) ?step)]"
    unfolding u by simp
  finally show ?thesis unfolding m0 m1 m2 a0 a1 a2 .
qed

lemma netB_step_binary64:
  "calculate_phases binary64 od netB FAST t step int_step = Some (Inr [0, 1], netB)"
proof -
  have n0: "phase_normalization binary64 0 = Some 0"
    by (simp add: phase_normalization_def phase_normalization_loop_exit phase_loop_test_def
        binary64_def)
  have n1: "phase_normalization binary64 1 = Some 1"
    by (simp add: phase_normalization_def phase_normalization_loop_exit phase_loop_test_def
        binary64_def)
  have a0: "fadd binary64 0 0 = 0" by (simp add: binary64_def binary64_round_def)
  have a1: "fadd binary64 1 0 = 1" using round_one by (simp add: binary64_def)
  show ?thesis
    by (simp add: calculate_phases_def netB_def upt_2 getitem_def phase_kuramoto_def
        replicate_2 a0 a1 n0 n1)
qed

lemma netB_static_loop:
  "static_loop binary64 od netB FAST True step int_step ts (PList ts0) (PList ps0) =
   Some (Inr (PList (ts0 @ map PFloat ts), PList (ps0 @ replicate (length ts) (vec [0, 1]))), netB)"
proof (induction ts arbitrary: ts0 ps0)
  case Nil
  then show ?case by simp
next
  case (Cons t ts)
  have p: "netB\<lparr>phases := [0, 1]\<rparr> = netB" by (simp add: netB_def)
  have "static_loop binary64 od netB FAST True step int_step (t # ts) (PList ts0) (PList ps0) =
        static_loop binary64 od netB FAST True step int_step ts
          (PList (ts0 @ [PFloat t])) (PList (ps0 @ [vec [0, 1]]))"
    by (simp add: netB_step_binary64 p)
  also have "\<dots> = Some (Inr (PList ((ts0 @ [PFloat t]) @ map PFloat ts),
        PList ((ps0 @ [vec [0, 1]]) @ replicate (length ts) (vec [0, 1]))), netB)"
    by (rule Cons.IH)
  finally show ?case by (simp add: replicate_append_same)
qed

text \<open>
  C8 fails on the code. For \<open>steps = 2\<close> and the double \<open>0.1\<close> as the total
  time, with the arithmetic of doubles, \<open>numpy.arange\<close> has three points: the
  length is the ceiling of \<open>2.0000000000000004\<close>. \<open>simulate_static\<close> with the
  collect flag then performs three macro steps and returns four times and four phase
  vectors, not three. (Without rounding the claim holds,
  \<open>simulate_static_collect_exact\<close>.)
\<close>

theorem simulate_static_extra_step:
  "simulate_static binary64 odeint_hold netB 2 (3602879701896397 / 2 ^ 55) FAST True =
     Some (Inr (PList (map PFloat [0, 3602879701896397 / 2 ^ 56, 3602879701896397 / 2 ^ 55,
                                   5404319552844596 / 2 ^ 55]),
                PList (map vec [[0, 1], [0, 1], [0, 1], [0, 1]])),
           netB) \<and>
   length [0, 3602879701896397 / 2 ^ 56, 3602879701896397 / 2 ^ 55,
           5404319552844596 / 2 ^ 55 :: real] \<noteq> nat 2 + 1"
proof -
  let ?time = "3602879701896397 / 2 ^ 55 :: real"
  let ?step = "3602879701896397 / 2 ^ 56 :: real"
  let ?stop = "5404319552844596 / 2 ^ 55 :: real"
  have s: "fdiv binary64 ?time (real_of_int 2) = ?step"
    using round_step by (simp add: binary64_def)
  have e: "fadd binary64 ?time ?step = ?stop"
    using round_stop by (simp add: binary64_def)
  have p: "phases netB = [0, 1]" by (simp add: netB_def)
  have l: "static_loop binary64 odeint_hold netB FAST True ?step (fdiv binary64 ?step 10)
             [?step, ?time, ?stop] (PList [PFloat 0]) (PList [vec [0, 1]]) =
           Some (Inr (PList ([PFloat 0] @ map PFloat [?step, ?time, ?stop]),
                      PList ([vec [0, 1]] @ replicate (length [?step, ?time, ?stop]) (vec [0, 1]))),
                 netB)"
    by (rule netB_static_loop)
  have "simulate_static binary64 odeint_hold netB 2 ?time FAST True =
        static_loop binary64 odeint_hold netB FAST True ?step (fdiv binary64 ?step 10)
             [?step, ?time, ?stop] (PList [PFloat 0]) (PList [vec [0, 1]])"
    unfolding simulate_static_def s Let_def e arange_binary64_three p by simp
  with l show ?thesis by (simp add: numeral_3_eq_3)
qed

section \<open>Dynamic simulation\<close>

lemma sync_local_order_network: "snd (sync_local_order self) = self"
  by (simp add: sync_local_order_def split: sum.splits prod.splits)

lemma consecutive_single: "consecutive ar od base solution step int_step [t] [p]"
  by (simp add: consecutive_def)

lemma consecutive_append:
  assumes c: "consecutive ar od base solution step int_step ts ps" and ne: "ps \<noteq> []"
    and calc: "calculate_phases ar od (base\<lparr>phases := last ps\<rparr>) solution (last ts) step int_step =
        Some (Inr next_phases, base\<lparr>phases := last ps\<rparr>)"
  shows "consecutive ar od base solution step int_step
           (ts @ [fadd ar (last ts) step]) (ps @ [next_phases])"
proof -
  from c have len: "length ts = length ps"
    and chain: "\<forall>k<length ps - 1.
        ts ! Suc k = fadd ar (ts ! k) step \<and>
        calculate_phases ar od (base\<lparr>phases := ps ! k\<rparr>) solution (ts ! k) step int_step =
          Some (Inr (ps ! Suc k), base\<lparr>phases := ps ! k\<rparr>)"
    by (simp_all add: consecutive_def)
  from ne len have tne: "ts \<noteq> []" by auto
  let ?ts = "ts @ [fadd ar (last ts) step]" and ?ps = "ps @ [next_phases]"
  have "\<forall>k<length ?ps - 1.
        ?ts ! Suc k = fadd ar (?ts ! k) step \<and>
        calculate_phases ar od (base\<lparr>phases := ?ps ! k\<rparr>) solution (?ts ! k) step int_step =
          Some (Inr (?ps ! Suc k), base\<lparr>phases := ?ps ! k\<rparr>)"
  proof (intro allI impI)
    fix k
    assume "k < length ?ps - 1"
    then have k: "k < length ps" by simp
    show "?ts ! Suc k = fadd ar (?ts ! k) step \<and>
        calculate_phases ar od (base\<lparr>phases := ?ps ! k\<rparr>) solution (?ts ! k) step int_step =
          Some (Inr (?ps ! Suc k), base\<lparr>phases := ?ps ! k\<rparr>)"
    proof (cases "k < length ps - 1")
      case True
      then have sk: "Suc k < length ps" by simp
      with len k have n: "?ts ! Suc k = ts ! Suc k" "?ts ! k = ts ! k"
        "?ps ! Suc k = ps ! Suc k" "?ps ! k = ps ! k"
        by (simp_all add: nth_append)
      from chain True show ?thesis unfolding n by blast
    next
      case False
      with k have sk: "Suc k = length ps" by simp
      with len have skt: "Suc k = length ts" by simp
      from sk have kp: "k = length ps - 1" by simp
      from skt have kt: "k = length ts - 1" by simp
      have lp: "last ps = ps ! k" unfolding kp by (rule last_conv_nth [OF ne])
      have lt: "last ts = ts ! k" unfolding kt by (rule last_conv_nth [OF tne])
      from k len have n: "?ts ! k = ts ! k" "?ps ! k = ps ! k" by (simp_all add: nth_append)
      have m: "?ts ! Suc k = fadd ar (ts ! k) step" "?ps ! Suc k = next_phases"
        unfolding sk using len lt by (simp_all add: nth_append)
      from calc have calc': "calculate_phases ar od (base\<lparr>phases := ps ! k\<rparr>) solution (ts ! k)
          step int_step = Some (Inr next_phases, base\<lparr>phases := ps ! k\<rparr>)"
        unfolding lp lt .
      show ?thesis by (simp only: n m calc' simp_thms)
    qed
  qed
  with len show ?thesis by (simp add: consecutive_def)
qed

lemma dynamic_loop_exit:
  assumes "dynamic_loop ar od str order solution collect_dynamic step int_step threshold_changes
             state time_counter dyn_time dyn_phase previous_order current_order = Some y"
  shows "fst (sync_local_order (fst state)) = Inr current_order \<and>
         (\<exists>p. fst state = base\<lparr>phases := p\<rparr>) \<and>
         (collect_dynamic \<longrightarrow>
            (\<exists>ts ps. dyn_time = PList (map PFloat ts) \<and> dyn_phase = PList (map vec ps) \<and>
               ps \<noteq> [] \<and> hd ts = t0 \<and> hd ps = p0 \<and>
               last ts = time_counter \<and> last ps = phases (fst state) \<and>
               consecutive ar od base solution step int_step ts ps)) \<longrightarrow>
         (\<forall>dt dp. fst y = Inr (dt, dp) \<longrightarrow>
            (\<exists>c. fst (sync_local_order (fst (snd y))) = Inr c \<and>
               (order \<le> c \<and> snd (snd y) = snd state \<or>
                (\<exists>before previous t.
                   fst (sync_local_order before) = Inr previous \<and> previous < order \<and>
                   calculate_phases ar od before solution t step int_step =
                     Some (Inr (phases (fst (snd y))), before) \<and>
                   fst (snd y) = before\<lparr>phases := phases (fst (snd y))\<rparr> \<and>
                   \<bar>fsub ar c previous\<bar> < threshold_changes \<and>
                   snd (snd y) = snd state @ [warning str c]))) \<and>
            (\<exists>p. fst (snd y) = base\<lparr>phases := p\<rparr>) \<and>
            (collect_dynamic \<longrightarrow>
               (\<exists>ts ps. dt = PList (map PFloat ts) \<and> dp = PList (map vec ps) \<and>
                  ps \<noteq> [] \<and> hd ts = t0 \<and> hd ps = p0 \<and>
                  last ps = phases (fst (snd y)) \<and>
                  consecutive ar od base solution step int_step ts ps)) \<and>
            (\<not> collect_dynamic \<longrightarrow>
               (dt = dyn_time \<and> dp = dyn_phase \<and> fst (snd y) = fst state) \<or>
               (\<exists>t. dt = PFloat t \<and> dp = vec (phases (fst (snd y))))))"
  using assms
proof (induction rule: dynamic_loop.raw_induct [rotated 1, consumes 1])
  case (1 loop ar od str order solution collect_dynamic step int_step threshold_changes
          state time_counter dyn_time dyn_phase previous_order current_order y)
  note ih = "1" (1) and eq = "1" (2)
  show ?case
  proof (intro impI allI)
    fix dt dp
    assume inv: "fst (sync_local_order (fst state)) = Inr current_order \<and>
         (\<exists>p. fst state = base\<lparr>phases := p\<rparr>) \<and>
         (collect_dynamic \<longrightarrow>
            (\<exists>ts ps. dyn_time = PList (map PFloat ts) \<and> dyn_phase = PList (map vec ps) \<and>
               ps \<noteq> [] \<and> hd ts = t0 \<and> hd ps = p0 \<and>
               last ts = time_counter \<and> last ps = phases (fst state) \<and>
               consecutive ar od base solution step int_step ts ps))"
      and res: "fst y = Inr (dt, dp)"
    from inv have invo: "fst (sync_local_order (fst state)) = Inr current_order" by blast
    from inv obtain p where invb: "fst state = base\<lparr>phases := p\<rparr>" by blast
    let ?goal = "(\<exists>c. fst (sync_local_order (fst (snd y))) = Inr c \<and>
               (order \<le> c \<and> snd (snd y) = snd state \<or>
                (\<exists>before previous t.
                   fst (sync_local_order before) = Inr previous \<and> previous < order \<and>
                   calculate_phases ar od before solution t step int_step =
                     Some (Inr (phases (fst (snd y))), before) \<and>
                   fst (snd y) = before\<lparr>phases := phases (fst (snd y))\<rparr> \<and>
                   \<bar>fsub ar c previous\<bar> < threshold_changes \<and>
                   snd (snd y) = snd state @ [warning str c]))) \<and>
            (\<exists>p. fst (snd y) = base\<lparr>phases := p\<rparr>) \<and>
            (collect_dynamic \<longrightarrow>
               (\<exists>ts ps. dt = PList (map PFloat ts) \<and> dp = PList (map vec ps) \<and>
                  ps \<noteq> [] \<and> hd ts = t0 \<and> hd ps = p0 \<and>
                  last ps = phases (fst (snd y)) \<and>
                  consecutive ar od base solution step int_step ts ps)) \<and>
            (\<not> collect_dynamic \<longrightarrow>
               (dt = dyn_time \<and> dp = dyn_phase \<and> fst (snd y) = fst state) \<or>
               (\<exists>t. dt = PFloat t \<and> dp = vec (phases (fst (snd y)))))"
    show ?goal
    proof (cases "current_order < order")
      case False
      with eq have y: "y = (Inr (dyn_time, dyn_phase), state)" by simp
      with res have d: "dt = dyn_time" "dp = dyn_phase" by simp_all
      have a: "fst (sync_local_order (fst (snd y))) = Inr current_order \<and>
          order \<le> current_order \<and> snd (snd y) = snd state"
        using y invo False by simp
      have b: "\<exists>p. fst (snd y) = base\<lparr>phases := p\<rparr>"
        unfolding y snd_conv using invb by (rule exI)
      have c1: "collect_dynamic \<longrightarrow>
               (\<exists>ts ps. dt = PList (map PFloat ts) \<and> dp = PList (map vec ps) \<and>
                  ps \<noteq> [] \<and> hd ts = t0 \<and> hd ps = p0 \<and>
                  last ps = phases (fst (snd y)) \<and>
                  consecutive ar od base solution step int_step ts ps)"
        using inv y d by auto
      have c2: "\<not> collect_dynamic \<longrightarrow>
               (dt = dyn_time \<and> dp = dyn_phase \<and> fst (snd y) = fst state) \<or>
               (\<exists>t. dt = PFloat t \<and> dp = vec (phases (fst (snd y))))"
        using y d by simp
      from a b c1 c2 show ?thesis by blast
    next
      case True
      show ?thesis
      proof (cases "calculate_phases ar od (fst state) solution time_counter step int_step")
        case None
        with eq True show ?thesis by simp
      next
        case (Some rs)
        obtain r s1 where rs: "rs = (r, s1)" by (cases rs)
        with Some have calc: "calculate_phases ar od (fst state) solution time_counter step int_step =
            Some (r, s1)"
          by simp
        from calculate_phases_network [OF calc] have s1: "s1 = fst state" .
        show ?thesis
        proof (cases r)
          case (Inl e)
          with eq True calc have "y = (Inl e, s1, snd state)" by simp
          with res show ?thesis by simp
        next
          case (Inr next_phases)
          let ?self2 = "(fst state)\<lparr>phases := next_phases\<rparr>"
          let ?t = "fadd ar time_counter step"
          have self2: "?self2 = base\<lparr>phases := next_phases\<rparr>"
            unfolding invb by simp
          have p2: "phases ?self2 = next_phases" by simp
          obtain r2 s3 where slo: "sync_local_order ?self2 = (r2, s3)"
            by (cases "sync_local_order ?self2")
          with sync_local_order_network [of ?self2] have s3: "s3 = ?self2" by simp
          let ?app = "if collect_dynamic = True then
                (case py_append dyn_phase (vec (phases ?self2)) of
                   Inl e \<Rightarrow> Inl e
                 | Inr dyn_phase' \<Rightarrow>
                     (case py_append dyn_time (PFloat ?t) of
                        Inl e \<Rightarrow> Inl e
                      | Inr dyn_time' \<Rightarrow> Inr (dyn_time', dyn_phase')))
              else Inr (PFloat ?t, vec (phases ?self2))"
          have "\<exists>dt1 dp1. ?app = Inr (dt1, dp1) \<and>
              (collect_dynamic \<longrightarrow>
                 (\<exists>ts ps. dt1 = PList (map PFloat ts) \<and> dp1 = PList (map vec ps) \<and>
                    ps \<noteq> [] \<and> hd ts = t0 \<and> hd ps = p0 \<and>
                    last ts = ?t \<and> last ps = phases ?self2 \<and>
                    consecutive ar od base solution step int_step ts ps)) \<and>
              (\<not> collect_dynamic \<longrightarrow> dt1 = PFloat ?t \<and> dp1 = vec (phases ?self2))"
          proof (cases collect_dynamic)
            case False
            then show ?thesis by simp
          next
            case True
            with inv obtain ts ps where tp: "dyn_time = PList (map PFloat ts)"
              "dyn_phase = PList (map vec ps)" "ps \<noteq> []" "hd ts = t0" "hd ps = p0"
              "last ts = time_counter" "last ps = phases (fst state)"
              and cons: "consecutive ar od base solution step int_step ts ps"
              by blast
            from cons have len: "length ts = length ps" by (simp add: consecutive_def)
            with tp(3) have tne: "ts \<noteq> []" by auto
            have lp: "base\<lparr>phases := last ps\<rparr> = fst state"
              unfolding tp(7) by (subst (2) invb, subst invb) simp
            have "calculate_phases ar od (base\<lparr>phases := last ps\<rparr>) solution (last ts) step int_step =
                Some (Inr next_phases, base\<lparr>phases := last ps\<rparr>)"
              unfolding lp tp(6) using calc Inr s1 by simp
            from consecutive_append [OF cons tp(3) this]
            have cons': "consecutive ar od base solution step int_step (ts @ [?t]) (ps @ [next_phases])"
              unfolding tp(6) .
            have e: "?app = Inr (PList (map PFloat (ts @ [?t])), PList (map vec (ps @ [next_phases])))"
              using True tp(1,2) by simp
            have "ps @ [next_phases] \<noteq> [] \<and> hd (ts @ [?t]) = t0 \<and> hd (ps @ [next_phases]) = p0 \<and>
              last (ts @ [?t]) = ?t \<and> last (ps @ [next_phases]) = phases ?self2"
              using tp(3,4,5) tne by simp
            with cons' have "\<exists>ts' ps'. PList (map PFloat (ts @ [?t])) = PList (map PFloat ts') \<and>
                PList (map vec (ps @ [next_phases])) = PList (map vec ps') \<and>
                ps' \<noteq> [] \<and> hd ts' = t0 \<and> hd ps' = p0 \<and>
                last ts' = ?t \<and> last ps' = phases ?self2 \<and>
                consecutive ar od base solution step int_step ts' ps'"
              by blast
            with e True show ?thesis by blast
          qed
          then obtain dt1 dp1 where app: "?app = Inr (dt1, dp1)"
            and shape1: "collect_dynamic \<longrightarrow>
                 (\<exists>ts ps. dt1 = PList (map PFloat ts) \<and> dp1 = PList (map vec ps) \<and>
                    ps \<noteq> [] \<and> hd ts = t0 \<and> hd ps = p0 \<and>
                    last ts = ?t \<and> last ps = phases ?self2 \<and>
                    consecutive ar od base solution step int_step ts ps)"
            and shape2: "\<not> collect_dynamic \<longrightarrow> dt1 = PFloat ?t \<and> dp1 = vec (phases ?self2)"
            by blast
          show ?thesis
          proof (cases r2)
            case (Inl e)
            with eq True calc Inr s1 slo app have "y = (Inl e, s3, snd state)"
              by (simp add: Let_def)
            with res show ?thesis by simp
          next
            case r2: (Inr c)
            show ?thesis
            proof (cases "\<bar>fsub ar c current_order\<bar> < threshold_changes")
              case stall: True
              with eq True calc Inr s1 slo app r2
              have y: "y = (Inr (dt1, dp1), s3, snd state @ [warning str c])"
                by (simp add: Let_def)
              with res have d: "dt = dt1" "dp = dp1" by simp_all
              have a: "fst (sync_local_order (fst (snd y))) = Inr c"
                using y slo s3 r2 by simp
              have b: "fst (sync_local_order (fst state)) = Inr current_order \<and> current_order < order \<and>
                     calculate_phases ar od (fst state) solution time_counter step int_step =
                       Some (Inr (phases (fst (snd y))), fst state) \<and>
                     fst (snd y) = (fst state)\<lparr>phases := phases (fst (snd y))\<rparr> \<and>
                     \<bar>fsub ar c current_order\<bar> < threshold_changes \<and>
                     snd (snd y) = snd state @ [warning str c]"
                using invo True calc Inr s1 y s3 stall by simp
              have b2: "\<exists>p. fst (snd y) = base\<lparr>phases := p\<rparr>"
                unfolding y snd_conv fst_conv s3 using self2 by (rule exI)
              have c1: "collect_dynamic \<longrightarrow>
               (\<exists>ts ps. dt = PList (map PFloat ts) \<and> dp = PList (map vec ps) \<and>
                  ps \<noteq> [] \<and> hd ts = t0 \<and> hd ps = p0 \<and>
                  last ps = phases (fst (snd y)) \<and>
                  consecutive ar od base solution step int_step ts ps)"
                using shape1 d y s3 by auto
              have c2: "\<not> collect_dynamic \<longrightarrow>
                 (dt = dyn_time \<and> dp = dyn_phase \<and> fst (snd y) = fst state) \<or>
                 (\<exists>t. dt = PFloat t \<and> dp = vec (phases (fst (snd y))))"
                using shape2 d y s3 by auto
              from a b b2 c1 c2 show ?thesis by blast
            next
              case go: False
              with eq True calc Inr s1 slo app r2
              have rec: "loop ar od str order solution collect_dynamic step int_step threshold_changes
                      (s3, snd state) ?t dt1 dp1 current_order c = Some y"
                by (simp add: Let_def)
              have i1: "fst (sync_local_order (fst (s3, snd state))) = Inr c"
                using slo r2 s3 by simp
              have i2: "\<exists>p. fst (s3, snd state) = base\<lparr>phases := p\<rparr>"
                unfolding fst_conv s3 using self2 by (rule exI)
              have i3: "collect_dynamic \<longrightarrow>
                 (\<exists>ts ps. dt1 = PList (map PFloat ts) \<and> dp1 = PList (map vec ps) \<and>
                    ps \<noteq> [] \<and> hd ts = t0 \<and> hd ps = p0 \<and>
                    last ts = ?t \<and> last ps = phases (fst (s3, snd state)) \<and>
                    consecutive ar od base solution step int_step ts ps)"
                using shape1 s3 by simp
              from ih [OF rec] i1 i2 i3 res
              have post: "(\<exists>c. fst (sync_local_order (fst (snd y))) = Inr c \<and>
               (order \<le> c \<and> snd (snd y) = snd (s3, snd state) \<or>
                (\<exists>before previous t.
                   fst (sync_local_order before) = Inr previous \<and> previous < order \<and>
                   calculate_phases ar od before solution t step int_step =
                     Some (Inr (phases (fst (snd y))), before) \<and>
                   fst (snd y) = before\<lparr>phases := phases (fst (snd y))\<rparr> \<and>
                   \<bar>fsub ar c previous\<bar> < threshold_changes \<and>
                   snd (snd y) = snd (s3, snd state) @ [warning str c]))) \<and>
            (\<exists>p. fst (snd y) = base\<lparr>phases := p\<rparr>) \<and>
            (collect_dynamic \<longrightarrow>
               (\<exists>ts ps. dt = PList (map PFloat ts) \<and> dp = PList (map vec ps) \<and>
                  ps \<noteq> [] \<and> hd ts = t0 \<and> hd ps = p0 \<and>
                  last ps = phases (fst (snd y)) \<and>
                  consecutive ar od base solution step int_step ts ps)) \<and>
            (\<not> collect_dynamic \<longrightarrow>
               (dt = dt1 \<and> dp = dp1 \<and> fst (snd y) = fst (s3, snd state)) \<or>
               (\<exists>t. dt = PFloat t \<and> dp = vec (phases (fst (snd y)))))"
                by blast
              have c2: "\<not> collect_dynamic \<longrightarrow>
                 (dt = dyn_time \<and> dp = dyn_phase \<and> fst (snd y) = fst state) \<or>
                 (\<exists>t. dt = PFloat t \<and> dp = vec (phases (fst (snd y))))"
              proof
                assume nc: "\<not> collect_dynamic"
                with post have "(dt = dt1 \<and> dp = dp1 \<and> fst (snd y) = s3) \<or>
                   (\<exists>t. dt = PFloat t \<and> dp = vec (phases (fst (snd y))))"
                  by simp
                then have "\<exists>t. dt = PFloat t \<and> dp = vec (phases (fst (snd y)))"
                proof
                  assume "dt = dt1 \<and> dp = dp1 \<and> fst (snd y) = s3"
                  with shape2 nc s3 have "dt = PFloat ?t \<and> dp = vec (phases (fst (snd y)))"
                    by simp
                  then show ?thesis by blast
                qed
                then show "(dt = dyn_time \<and> dp = dyn_phase \<and> fst (snd y) = fst state) \<or>
                   (\<exists>t. dt = PFloat t \<and> dp = vec (phases (fst (snd y))))"
                  by blast
              qed
              from post c2 show ?thesis by simp
            qed
          qed
        qed
      qed
    qed
  qed
qed

lemma dynamic_loop_exit_state:
  assumes "dynamic_loop ar od str order solution collect_dynamic step int_step threshold_changes
             (self, out) time_counter dyn_time dyn_phase previous_order current_order =
             Some (Inr (dt, dp), self', out')"
    and "fst (sync_local_order self) = Inr current_order"
    and "\<exists>p. self = base\<lparr>phases := p\<rparr>"
    and "collect_dynamic \<longrightarrow>
            (\<exists>ts ps. dyn_time = PList (map PFloat ts) \<and> dyn_phase = PList (map vec ps) \<and>
               ps \<noteq> [] \<and> hd ts = t0 \<and> hd ps = p0 \<and>
               last ts = time_counter \<and> last ps = phases self \<and>
               consecutive ar od base solution step int_step ts ps)"
  shows "(\<exists>c. fst (sync_local_order self') = Inr c \<and>
               (order \<le> c \<and> out' = out \<or>
                (\<exists>before previous t.
                   fst (sync_local_order before) = Inr previous \<and> previous < order \<and>
                   calculate_phases ar od before solution t step int_step =
                     Some (Inr (phases self'), before) \<and>
                   self' = before\<lparr>phases := phases self'\<rparr> \<and>
                   \<bar>fsub ar c previous\<bar> < threshold_changes \<and>
                   out' = out @ [warning str c]))) \<and>
            (\<exists>p. self' = base\<lparr>phases := p\<rparr>) \<and>
            (collect_dynamic \<longrightarrow>
               (\<exists>ts ps. dt = PList (map PFloat ts) \<and> dp = PList (map vec ps) \<and>
                  ps \<noteq> [] \<and> hd ts = t0 \<and> hd ps = p0 \<and> last ps = phases self' \<and>
                  consecutive ar od base solution step int_step ts ps)) \<and>
            (\<not> collect_dynamic \<longrightarrow>
               (dt = dyn_time \<and> dp = dyn_phase \<and> self' = self) \<or>
               (\<exists>t. dt = PFloat t \<and> dp = vec (phases self')))"
  using dynamic_loop_exit [OF assms(1), of base t0 p0] assms(2,3,4)
  unfolding fst_conv snd_conv by blast

lemma dynamic_loop_stall:
  fixes s :: "nat \<Rightarrow> sync_network" and c tm :: "nat \<Rightarrow> real"
  assumes steps: "\<forall>k\<le>n. tm (Suc k) = fadd ar (tm k) step \<and>
        calculate_phases ar od (s k) solution (tm k) step int_step =
          Some (Inr (phases (s (Suc k))), s k) \<and>
        s (Suc k) = (s k)\<lparr>phases := phases (s (Suc k))\<rparr>"
    and orders: "\<forall>k\<le>Suc n. sync_local_order (s k) = (Inr (c k), s k)"
    and below: "\<forall>k\<le>n. c k < order"
    and moving: "\<forall>k<n. \<not> \<bar>fsub ar (c (Suc k)) (c k)\<bar> < threshold_changes"
    and stall: "\<bar>fsub ar (c (Suc n)) (c n)\<bar> < threshold_changes"
    and lists: "collect_dynamic \<longrightarrow> dyn_time = PList tlist \<and> dyn_phase = PList plist"
  shows "dynamic_loop ar od str order solution collect_dynamic step int_step threshold_changes
           (s 0, out) (tm 0) dyn_time dyn_phase previous (c 0) =
         Some (Inr (if collect_dynamic
                    then (PList (tlist @ map (\<lambda>k. PFloat (tm (Suc k))) [0..<Suc n]),
                          PList (plist @ map (\<lambda>k. vec (phases (s (Suc k)))) [0..<Suc n]))
                    else (PFloat (tm (Suc n)), vec (phases (s (Suc n))))),
               s (Suc n), out @ [warning str (c (Suc n))])"
  using assms
proof (induction n arbitrary: s c tm dyn_time dyn_phase tlist plist previous)
  case 0
  from "0.prems"(1) have t1: "fadd ar (tm 0) step = tm (Suc 0)"
    and calc: "calculate_phases ar od (s 0) solution (tm 0) step int_step =
          Some (Inr (phases (s (Suc 0))), s 0)"
    and s1: "(s 0)\<lparr>phases := phases (s (Suc 0))\<rparr> = s (Suc 0)"
    by simp_all
  from "0.prems"(2) have o1: "sync_local_order (s (Suc 0)) = (Inr (c (Suc 0)), s (Suc 0))"
    by simp
  from "0.prems"(3) have b: "c 0 < order" by simp
  note st = "0.prems"(5)
  show ?case
  proof (cases collect_dynamic)
    case True
    with "0.prems"(6) have l: "dyn_time = PList tlist" "dyn_phase = PList plist" by simp_all
    show ?thesis
      by (subst dynamic_loop.simps) (simp add: b calc s1 t1 o1 st l True Let_def)
  next
    case False
    show ?thesis
      by (subst dynamic_loop.simps) (simp add: b calc s1 t1 o1 st False Let_def)
  qed
next
  case (Suc n)
  from Suc.prems(1) have t1: "fadd ar (tm 0) step = tm (Suc 0)"
    and calc: "calculate_phases ar od (s 0) solution (tm 0) step int_step =
          Some (Inr (phases (s (Suc 0))), s 0)"
    and s1: "(s 0)\<lparr>phases := phases (s (Suc 0))\<rparr> = s (Suc 0)"
    by simp_all
  from Suc.prems(2) have o1: "sync_local_order (s (Suc 0)) = (Inr (c (Suc 0)), s (Suc 0))"
    by simp
  from Suc.prems(3) have b: "c 0 < order" by simp
  from Suc.prems(4) have mv: "\<not> \<bar>fsub ar (c (Suc 0)) (c 0)\<bar> < threshold_changes" by simp
  let ?s = "\<lambda>k. s (Suc k)" and ?c = "\<lambda>k. c (Suc k)" and ?tm = "\<lambda>k. tm (Suc k)"
  have steps': "\<forall>k\<le>n. ?tm (Suc k) = fadd ar (?tm k) step \<and>
        calculate_phases ar od (?s k) solution (?tm k) step int_step =
          Some (Inr (phases (?s (Suc k))), ?s k) \<and>
        ?s (Suc k) = (?s k)\<lparr>phases := phases (?s (Suc k))\<rparr>"
  proof (intro allI impI)
    fix k assume "k \<le> n"
    then have "Suc k \<le> Suc n" by simp
    with Suc.prems(1) show "?tm (Suc k) = fadd ar (?tm k) step \<and>
        calculate_phases ar od (?s k) solution (?tm k) step int_step =
          Some (Inr (phases (?s (Suc k))), ?s k) \<and>
        ?s (Suc k) = (?s k)\<lparr>phases := phases (?s (Suc k))\<rparr>"
      by blast
  qed
  have orders': "\<forall>k\<le>Suc n. sync_local_order (?s k) = (Inr (?c k), ?s k)"
    using Suc.prems(2) by simp
  have below': "\<forall>k\<le>n. ?c k < order" using Suc.prems(3) by simp
  have moving': "\<forall>k<n. \<not> \<bar>fsub ar (?c (Suc k)) (?c k)\<bar> < threshold_changes"
    using Suc.prems(4) by simp
  have stall': "\<bar>fsub ar (?c (Suc n)) (?c n)\<bar> < threshold_changes"
    using Suc.prems(5) by simp
  have shift: "g 0 # map (\<lambda>k. g (Suc k)) [0..<Suc n] = map g [0..<Suc (Suc n)]" for g :: "nat \<Rightarrow> pyval"
    by (simp only: map_upt_Suc [of g "Suc n"])
  show ?case
  proof (cases collect_dynamic)
    case True
    with Suc.prems(6) have l: "dyn_time = PList tlist" "dyn_phase = PList plist" by simp_all
    let ?dt = "PList (tlist @ [PFloat (tm (Suc 0))])"
    let ?dp = "PList (plist @ [vec (phases (s (Suc 0)))])"
    have lists': "collect_dynamic \<longrightarrow>
        ?dt = PList (tlist @ [PFloat (tm (Suc 0))]) \<and> ?dp = PList (plist @ [vec (phases (s (Suc 0)))])"
      by simp
    have unfold: "dynamic_loop ar od str order solution collect_dynamic step int_step
           threshold_changes (s 0, out) (tm 0) dyn_time dyn_phase previous (c 0) =
         dynamic_loop ar od str order solution collect_dynamic step int_step
           threshold_changes (s (Suc 0), out) (tm (Suc 0)) ?dt ?dp (c 0) (c (Suc 0))"
      by (subst dynamic_loop.simps) (simp add: b calc s1 t1 o1 mv l True Let_def)
    from Suc.IH [of ?tm ?s ?c ?dt "tlist @ [PFloat (tm (Suc 0))]" ?dp
        "plist @ [vec (phases (s (Suc 0)))]" "c 0", OF steps' orders' below' moving' stall' lists']
    have "dynamic_loop ar od str order solution collect_dynamic step int_step
           threshold_changes (s (Suc 0), out) (tm (Suc 0)) ?dt ?dp (c 0) (c (Suc 0)) =
         Some (Inr (PList ((tlist @ [PFloat (tm (Suc 0))]) @
                             map (\<lambda>k. PFloat (tm (Suc (Suc k)))) [0..<Suc n]),
                    PList ((plist @ [vec (phases (s (Suc 0)))]) @
                             map (\<lambda>k. vec (phases (s (Suc (Suc k))))) [0..<Suc n])),
               s (Suc (Suc n)), out @ [warning str (c (Suc (Suc n)))])"
      using True by simp
    moreover have "(tlist @ [PFloat (tm (Suc 0))]) @ map (\<lambda>k. PFloat (tm (Suc (Suc k)))) [0..<Suc n] =
        tlist @ map (\<lambda>k. PFloat (tm (Suc k))) [0..<Suc (Suc n)]"
      using shift [of "\<lambda>k. PFloat (tm (Suc k))"] by simp
    moreover have "(plist @ [vec (phases (s (Suc 0)))]) @
          map (\<lambda>k. vec (phases (s (Suc (Suc k))))) [0..<Suc n] =
        plist @ map (\<lambda>k. vec (phases (s (Suc k)))) [0..<Suc (Suc n)]"
      using shift [of "\<lambda>k. vec (phases (s (Suc k)))"] by simp
    ultimately show ?thesis using unfold True by simp
  next
    case False
    let ?dt = "PFloat (tm (Suc 0))"
    let ?dp = "vec (phases (s (Suc 0)))"
    have lists': "collect_dynamic \<longrightarrow> ?dt = PList [] \<and> ?dp = PList []"
      using False by simp
    have unfold: "dynamic_loop ar od str order solution collect_dynamic step int_step
           threshold_changes (s 0, out) (tm 0) dyn_time dyn_phase previous (c 0) =
         dynamic_loop ar od str order solution collect_dynamic step int_step
           threshold_changes (s (Suc 0), out) (tm (Suc 0)) ?dt ?dp (c 0) (c (Suc 0))"
      by (subst dynamic_loop.simps) (simp add: b calc s1 t1 o1 mv False Let_def)
    from Suc.IH [of ?tm ?s ?c ?dt "[]" ?dp "[]" "c 0",
        OF steps' orders' below' moving' stall' lists']
    show ?thesis using unfold False by simp
  qed
qed

lemma phase_normalization_fixed:
  "0 \<le> x \<Longrightarrow> x \<le> two_pi ar \<Longrightarrow> phase_normalization ar x = Some x"
  by (simp add: phase_normalization_def phase_normalization_loop_exit phase_loop_test_def not_less)

lemma exp_minus_pi: "exp (- pi) \<le> 1 / 3"
proof -
  have "3 \<le> 1 + pi" using pi_ge_two by simp
  also have "1 + pi \<le> exp pi" by (rule exp_ge_add_one_self)
  finally have "3 \<le> exp pi" .
  then have "inverse (exp pi) \<le> inverse 3" by (intro le_imp_inverse_le) simp_all
  then show ?thesis by (simp add: exp_minus inverse_eq_divide)
qed

lemma netB_order: "sync_local_order netB = (Inr 0, netB)"
  by (simp add: sync_local_order_def netB_def upt_2)

lemma netB_phases: "netB\<lparr>phases := [0, 1]\<rparr> = netB" "phases netB = [0, 1]"
  by (simp_all add: netB_def)

lemma netE_order: "sync_local_order netE = (Inr (exp (- pi)), netE)"
  by (simp add: sync_local_order_def netE_def upt_2 getitem_def)

lemma netE_step: "calculate_phases exact od netE FAST t step int_step = Some (Inr [pi, pi], netE)"
proof -
  have "phase_normalization exact pi = Some pi"
    by (intro phase_normalization_fixed) (simp_all add: exact_def)
  then show ?thesis
    by (simp add: calculate_phases_def netE_def upt_2 getitem_def phase_kuramoto_def replicate_2
        exact_def)
qed

lemma netE_order_after:
  "sync_local_order (netE\<lparr>phases := [pi, pi]\<rparr>) = (Inr 1, netE\<lparr>phases := [pi, pi]\<rparr>)"
  by (simp add: sync_local_order_def netE_def upt_2 getitem_def)

lemma PFloat_list_eq: "map PFloat ts = map PFloat ts' \<longleftrightarrow> ts = ts'"
  by (simp add: inj_map_eq_map inj_on_def)

lemma vec_list_eq: "map vec ps = map vec ps' \<longleftrightarrow> ps = ps'"
  by (simp add: inj_map_eq_map inj_on_def vec_def PFloat_list_eq)

text \<open>
  C9, in two parts. First: whenever \<open>simulate_dynamic\<close> returns a result, the local
  order of the network it leaves is defined and either it is at least the requested
  order and nothing was printed, or the last iteration went from a network with a
  local order below the requested one to the final network by one call of
  \<open>_calculate_phases\<close>, the local order changed by less than \<open>threshold_changes\<close>
  in absolute value, and the one line printed is the warning with the current order.
  The network returned differs from the initial one in its phases only. With the
  collect flag the value returned is the trajectory collected so far: index-aligned
  lists of times and phase vectors that start at time \<open>0\<close> with the initial phases,
  proceed by consecutive iterations of the loop, and end in the phases of the final
  network; without the flag it is the initial pair of empty lists on an unchanged
  network, or a time and the phases of the final network. Second: a stall produces
  the warning and the result. If the first \<open>n\<close> iterations keep the local order below
  the requested one and change it by at least the threshold, and iteration \<open>n + 1\<close>
  changes it by less, then the call returns, and what it returns is the trajectory
  collected so far: with the collect flag all \<open>n + 2\<close> times and phase vectors from
  the initial state on, without it the last time and the last phase vector; the
  network is the one after iteration \<open>n + 1\<close>, and the output has gained the one
  warning line with the last local order.
\<close>

theorem simulate_dynamic_exit:
  fixes s :: "nat \<Rightarrow> sync_network" and c tm :: "nat \<Rightarrow> real"
  shows
    "(simulate_dynamic ar od str (self, out) order solution collect_dynamic step int_step
        threshold_changes = Some (Inr (dyn_time, dyn_phase), self', out') \<longrightarrow>
      (\<exists>current_order.
         fst (sync_local_order self') = Inr current_order \<and>
         (order \<le> current_order \<and> out' = out \<or>
          (\<exists>before previous t.
             fst (sync_local_order before) = Inr previous \<and> previous < order \<and>
             calculate_phases ar od before solution t step int_step =
               Some (Inr (phases self'), before) \<and>
             self' = before\<lparr>phases := phases self'\<rparr> \<and>
             \<bar>fsub ar current_order previous\<bar> < threshold_changes \<and>
             out' = out @
               [''Warning: sync_network::simulate_dynamic - simulation is aborted due to low level of convergence rate (order = ''
                @ str current_order @ '').''])) \<and>
         self' = self\<lparr>phases := phases self'\<rparr> \<and>
         (collect_dynamic \<longrightarrow>
            (\<exists>ts ps. dyn_time = PList (map PFloat ts) \<and> dyn_phase = PList (map vec ps) \<and>
               ps \<noteq> [] \<and> hd ts = 0 \<and> hd ps = phases self \<and> last ps = phases self' \<and>
               consecutive ar od self solution step int_step ts ps)) \<and>
         (\<not> collect_dynamic \<longrightarrow>
            (dyn_time = PList [] \<and> dyn_phase = PList [] \<and> self' = self) \<or>
            (\<exists>t. dyn_time = PFloat t \<and> dyn_phase = vec (phases self'))))) \<and>
     (s 0 = self \<and> tm 0 = 0 \<and>
      (\<forall>k\<le>n. tm (Suc k) = fadd ar (tm k) step \<and>
         calculate_phases ar od (s k) solution (tm k) step int_step =
           Some (Inr (phases (s (Suc k))), s k) \<and>
         s (Suc k) = (s k)\<lparr>phases := phases (s (Suc k))\<rparr>) \<and>
      (\<forall>k\<le>Suc n. sync_local_order (s k) = (Inr (c k), s k)) \<and>
      (\<forall>k\<le>n. c k < order) \<and>
      (\<forall>k<n. \<not> \<bar>fsub ar (c (Suc k)) (c k)\<bar> < threshold_changes) \<and>
      \<bar>fsub ar (c (Suc n)) (c n)\<bar> < threshold_changes \<longrightarrow>
      simulate_dynamic ar od str (self, out) order solution collect_dynamic step int_step
        threshold_changes =
        Some (Inr (if collect_dynamic
                   then (PList (map (\<lambda>k. PFloat (tm k)) [0..<Suc (Suc n)]),
                         PList (map (\<lambda>k. vec (phases (s k))) [0..<Suc (Suc n)]))
                   else (PFloat (tm (Suc n)), vec (phases (s (Suc n))))),
              s (Suc n),
              out @
               [''Warning: sync_network::simulate_dynamic - simulation is aborted due to low level of convergence rate (order = ''
                @ str (c (Suc n)) @ '').'']))"
proof (intro conjI impI)
  assume run: "simulate_dynamic ar od str (self, out) order solution collect_dynamic step int_step
        threshold_changes = Some (Inr (dyn_time, dyn_phase), self', out')"
  obtain r s0 where slo: "sync_local_order self = (r, s0)" by (cases "sync_local_order self")
  with sync_local_order_network [of self] have s0: "s0 = self" by simp
  from run slo obtain c0 where r: "r = Inr c0"
    by (cases r) (simp_all add: simulate_dynamic_def)
  let ?dt0 = "if collect_dynamic then PList [PFloat 0] else PList []"
  let ?dp0 = "if collect_dynamic then PList [vec (phases self)] else PList []"
  from run slo s0 r
  have loop: "dynamic_loop ar od str order solution collect_dynamic step int_step threshold_changes
          (self, out) 0 ?dt0 ?dp0 0 c0 = Some (Inr (dyn_time, dyn_phase), self', out')"
    by (simp add: simulate_dynamic_def split: if_splits)
  have i1: "fst (sync_local_order self) = Inr c0" using slo r by simp
  have i2: "\<exists>p. self = self\<lparr>phases := p\<rparr>"
    by (rule exI [of _ "phases self"]) simp
  have i3: "collect_dynamic \<longrightarrow>
            (\<exists>ts ps. ?dt0 = PList (map PFloat ts) \<and> ?dp0 = PList (map vec ps) \<and>
               ps \<noteq> [] \<and> hd ts = 0 \<and> hd ps = phases self \<and>
               last ts = 0 \<and> last ps = phases self \<and>
               consecutive ar od self solution step int_step ts ps)"
  proof
    assume c: collect_dynamic
    have "\<exists>ts ps. PList [PFloat 0] = PList (map PFloat ts) \<and>
          PList [vec (phases self)] = PList (map vec ps) \<and>
          ps \<noteq> [] \<and> hd ts = 0 \<and> hd ps = phases self \<and>
          last ts = 0 \<and> last ps = phases self \<and>
          consecutive ar od self solution step int_step ts ps"
      by (rule exI [of _ "[0]"], rule exI [of _ "[phases self]"])
        (simp add: consecutive_single)
    with c show "\<exists>ts ps. ?dt0 = PList (map PFloat ts) \<and> ?dp0 = PList (map vec ps) \<and>
               ps \<noteq> [] \<and> hd ts = 0 \<and> hd ps = phases self \<and>
               last ts = 0 \<and> last ps = phases self \<and>
               consecutive ar od self solution step int_step ts ps"
      by simp
  qed
  from dynamic_loop_exit_state [OF loop i1 i2 i3]
  have post: "(\<exists>c. fst (sync_local_order self') = Inr c \<and>
               (order \<le> c \<and> out' = out \<or>
                (\<exists>before previous t.
                   fst (sync_local_order before) = Inr previous \<and> previous < order \<and>
                   calculate_phases ar od before solution t step int_step =
                     Some (Inr (phases self'), before) \<and>
                   self' = before\<lparr>phases := phases self'\<rparr> \<and>
                   \<bar>fsub ar c previous\<bar> < threshold_changes \<and>
                   out' = out @ [warning str c]))) \<and>
            (\<exists>p. self' = self\<lparr>phases := p\<rparr>) \<and>
            (collect_dynamic \<longrightarrow>
               (\<exists>ts ps. dyn_time = PList (map PFloat ts) \<and> dyn_phase = PList (map vec ps) \<and>
                  ps \<noteq> [] \<and> hd ts = 0 \<and> hd ps = phases self \<and> last ps = phases self' \<and>
                  consecutive ar od self solution step int_step ts ps)) \<and>
            (\<not> collect_dynamic \<longrightarrow>
               (dyn_time = ?dt0 \<and> dyn_phase = ?dp0 \<and> self' = self) \<or>
               (\<exists>t. dyn_time = PFloat t \<and> dyn_phase = vec (phases self')))" .
  then obtain p where "self' = self\<lparr>phases := p\<rparr>" by blast
  then have only: "self' = self\<lparr>phases := phases self'\<rparr>" by simp
  from post only
  show "\<exists>current_order.
         fst (sync_local_order self') = Inr current_order \<and>
         (order \<le> current_order \<and> out' = out \<or>
          (\<exists>before previous t.
             fst (sync_local_order before) = Inr previous \<and> previous < order \<and>
             calculate_phases ar od before solution t step int_step =
               Some (Inr (phases self'), before) \<and>
             self' = before\<lparr>phases := phases self'\<rparr> \<and>
             \<bar>fsub ar current_order previous\<bar> < threshold_changes \<and>
             out' = out @
               [''Warning: sync_network::simulate_dynamic - simulation is aborted due to low level of convergence rate (order = ''
                @ str current_order @ '').''])) \<and>
         self' = self\<lparr>phases := phases self'\<rparr> \<and>
         (collect_dynamic \<longrightarrow>
            (\<exists>ts ps. dyn_time = PList (map PFloat ts) \<and> dyn_phase = PList (map vec ps) \<and>
               ps \<noteq> [] \<and> hd ts = 0 \<and> hd ps = phases self \<and> last ps = phases self' \<and>
               consecutive ar od self solution step int_step ts ps)) \<and>
         (\<not> collect_dynamic \<longrightarrow>
            (dyn_time = PList [] \<and> dyn_phase = PList [] \<and> self' = self) \<or>
            (\<exists>t. dyn_time = PFloat t \<and> dyn_phase = vec (phases self')))"
    unfolding warning_def by (simp split: if_splits)
next
  assume h: "s 0 = self \<and> tm 0 = 0 \<and>
      (\<forall>k\<le>n. tm (Suc k) = fadd ar (tm k) step \<and>
         calculate_phases ar od (s k) solution (tm k) step int_step =
           Some (Inr (phases (s (Suc k))), s k) \<and>
         s (Suc k) = (s k)\<lparr>phases := phases (s (Suc k))\<rparr>) \<and>
      (\<forall>k\<le>Suc n. sync_local_order (s k) = (Inr (c k), s k)) \<and>
      (\<forall>k\<le>n. c k < order) \<and>
      (\<forall>k<n. \<not> \<bar>fsub ar (c (Suc k)) (c k)\<bar> < threshold_changes) \<and>
      \<bar>fsub ar (c (Suc n)) (c n)\<bar> < threshold_changes"
  then have s0: "s 0 = self" and t0: "tm 0 = 0"
    and steps: "\<forall>k\<le>n. tm (Suc k) = fadd ar (tm k) step \<and>
         calculate_phases ar od (s k) solution (tm k) step int_step =
           Some (Inr (phases (s (Suc k))), s k) \<and>
         s (Suc k) = (s k)\<lparr>phases := phases (s (Suc k))\<rparr>"
    and orders: "\<forall>k\<le>Suc n. sync_local_order (s k) = (Inr (c k), s k)"
    and below: "\<forall>k\<le>n. c k < order"
    and moving: "\<forall>k<n. \<not> \<bar>fsub ar (c (Suc k)) (c k)\<bar> < threshold_changes"
    and stall: "\<bar>fsub ar (c (Suc n)) (c n)\<bar> < threshold_changes"
    by blast+
  from orders have o0: "sync_local_order (s 0) = (Inr (c 0), s 0)" by simp
  let ?dt0 = "if collect_dynamic then PList [PFloat 0] else PList []"
  let ?dp0 = "if collect_dynamic then PList [vec (phases (s 0))] else PList []"
  have lists: "collect_dynamic \<longrightarrow> ?dt0 = PList [PFloat 0] \<and> ?dp0 = PList [vec (phases (s 0))]"
    by simp
  have sim: "simulate_dynamic ar od str (s 0, out) order solution collect_dynamic step int_step
        threshold_changes =
      dynamic_loop ar od str order solution collect_dynamic step int_step threshold_changes
        (s 0, out) (tm 0) ?dt0 ?dp0 0 (c 0)"
    by (simp add: simulate_dynamic_def o0 t0)
  have a: "[PFloat 0] @ map (\<lambda>k. PFloat (tm (Suc k))) [0..<Suc n] =
        map (\<lambda>k. PFloat (tm k)) [0..<Suc (Suc n)]"
    using map_upt_Suc [of "\<lambda>k. PFloat (tm k)" "Suc n"] t0 by simp
  have b: "[vec (phases (s 0))] @ map (\<lambda>k. vec (phases (s (Suc k)))) [0..<Suc n] =
        map (\<lambda>k. vec (phases (s k))) [0..<Suc (Suc n)]"
    using map_upt_Suc [of "\<lambda>k. vec (phases (s k))" "Suc n"] by simp
  have "dynamic_loop ar od str order solution collect_dynamic step int_step threshold_changes
        (s 0, out) (tm 0) ?dt0 ?dp0 0 (c 0) =
      Some (Inr (if collect_dynamic
                 then (PList ([PFloat 0] @ map (\<lambda>k. PFloat (tm (Suc k))) [0..<Suc n]),
                       PList ([vec (phases (s 0))] @ map (\<lambda>k. vec (phases (s (Suc k)))) [0..<Suc n]))
                 else (PFloat (tm (Suc n)), vec (phases (s (Suc n))))),
            s (Suc n), out @ [warning str (c (Suc n))])"
    by (rule dynamic_loop_stall [OF steps orders below moving stall lists])
  with sim s0 show "simulate_dynamic ar od str (self, out) order solution collect_dynamic step
        int_step threshold_changes =
        Some (Inr (if collect_dynamic
                   then (PList (map (\<lambda>k. PFloat (tm k)) [0..<Suc (Suc n)]),
                         PList (map (\<lambda>k. vec (phases (s k))) [0..<Suc (Suc n)]))
                   else (PFloat (tm (Suc n)), vec (phases (s (Suc n))))),
              s (Suc n),
              out @
               [''Warning: sync_network::simulate_dynamic - simulation is aborted due to low level of convergence rate (order = ''
                @ str (c (Suc n)) @ '').''])"
    unfolding a b warning_def by simp
qed

theorem simulate_dynamic_exit_witness:
  "simulate_dynamic binary64 odeint_hold str_stub (netB, []) (4494592428115755 / 2 ^ 52) FAST True
     (3602879701896397 / 2 ^ 55) (5764607523034235 / 2 ^ 59) (944473296573929 / 2 ^ 73) =
     Some (Inr (PList [PFloat 0, PFloat (3602879701896397 / 2 ^ 55)],
                PList [vec [0, 1], vec [0, 1]]),
           netB,
           [''Warning: sync_network::simulate_dynamic - simulation is aborted due to low level of convergence rate (order = <float>).'']) \<and>
   (\<exists>current previous. fst (sync_local_order netB) = Inr current \<and> previous < 4494592428115755 / 2 ^ 52 \<and>
      \<bar>fsub binary64 current previous\<bar> < 944473296573929 / 2 ^ 73) \<and>
   consecutive binary64 odeint_hold netB FAST (3602879701896397 / 2 ^ 55) (5764607523034235 / 2 ^ 59)
     [0, 3602879701896397 / 2 ^ 55] [[0, 1], [0, 1]] \<and>
   simulate_dynamic exact odeint_hold str_stub (netE, []) (998 / 1000) FAST False (1 / 10) (1 / 100)
     (1 / 10000000) =
     Some (Inr (PFloat (1 / 10), vec [pi, pi]), netE\<lparr>phases := [pi, pi]\<rparr>, []) \<and>
   (\<exists>current. fst (sync_local_order (netE\<lparr>phases := [pi, pi]\<rparr>)) = Inr current \<and>
      998 / 1000 \<le> current)"
proof -
  let ?step = "3602879701896397 / 2 ^ 55 :: real"
  let ?order = "4494592428115755 / 2 ^ 52 :: real"
  let ?thr = "944473296573929 / 2 ^ 73 :: real"
  let ?int_step = "5764607523034235 / 2 ^ 59 :: real"
  let ?tm = "\<lambda>k::nat. if k = 0 then 0 else ?step"
  note stall = simulate_dynamic_exit [where ar = binary64 and od = odeint_hold and str = str_stub
      and self = netB and out = "[]" and order = ?order and solution = FAST
      and collect_dynamic = True and step = ?step and int_step = ?int_step
      and threshold_changes = ?thr and s = "\<lambda>k. netB" and c = "\<lambda>k. 0" and tm = ?tm
      and n = 0, THEN conjunct2]
  have t1: "fadd binary64 0 ?step = ?step" using round_time by (simp add: binary64_def)
  have z: "fsub binary64 0 0 = 0" by (simp add: binary64_def binary64_round_def)
  have u: "[0..<Suc (Suc 0)] = [0, Suc 0]" by (simp add: upt_rec)
  have hyp: "(\<lambda>k. netB) 0 = netB \<and> ?tm 0 = 0 \<and>
      (\<forall>k\<le>0. ?tm (Suc k) = fadd binary64 (?tm k) ?step \<and>
         calculate_phases binary64 odeint_hold ((\<lambda>k. netB) k) FAST (?tm k) ?step ?int_step =
           Some (Inr (phases ((\<lambda>k. netB) (Suc k))), (\<lambda>k. netB) k) \<and>
         (\<lambda>k. netB) (Suc k) = ((\<lambda>k. netB) k)\<lparr>phases := phases ((\<lambda>k. netB) (Suc k))\<rparr>) \<and>
      (\<forall>k\<le>Suc 0. sync_local_order ((\<lambda>k. netB) k) = (Inr ((\<lambda>k. 0) k), (\<lambda>k. netB) k)) \<and>
      (\<forall>k\<le>0. (\<lambda>k. 0) k < ?order) \<and>
      (\<forall>k<0. \<not> \<bar>fsub binary64 ((\<lambda>k. 0) (Suc k)) ((\<lambda>k. 0) k)\<bar> < ?thr) \<and>
      \<bar>fsub binary64 ((\<lambda>k. 0) (Suc 0)) ((\<lambda>k. 0) 0)\<bar> < ?thr"
    using t1 z by (simp add: netB_step_binary64 netB_phases netB_order)
  from mp [OF stall hyp]
  have runB: "simulate_dynamic binary64 odeint_hold str_stub (netB, []) ?order FAST True
     ?step ?int_step ?thr =
     Some (Inr (PList [PFloat 0, PFloat ?step], PList [vec [0, 1], vec [0, 1]]), netB,
           [''Warning: sync_network::simulate_dynamic - simulation is aborted due to low level of convergence rate (order = <float>).''])"
    by (simp add: u netB_phases str_stub_def)
  from simulate_dynamic_exit [THEN conjunct1, THEN mp, OF runB]
  have stalled: "\<exists>current previous. fst (sync_local_order netB) = Inr current \<and> previous < ?order \<and>
      \<bar>fsub binary64 current previous\<bar> < ?thr"
    by auto
  from runB
  have runB': "simulate_dynamic binary64 odeint_hold str_stub (netB, []) ?order FAST True
     ?step ?int_step ?thr =
     Some (Inr (PList (map PFloat [0, ?step]), PList (map vec [[0, 1], [0, 1]])), netB,
           [''Warning: sync_network::simulate_dynamic - simulation is aborted due to low level of convergence rate (order = <float>).''])"
    by simp
  from simulate_dynamic_exit [THEN conjunct1, THEN mp, OF runB']
  obtain ts ps where "PList (map PFloat [0, ?step]) = PList (map PFloat ts)"
    "PList (map vec [[0, 1], [0, 1]]) = PList (map vec ps)"
    "consecutive binary64 odeint_hold netB FAST ?step ?int_step ts ps"
    by blast
  then have traj: "consecutive binary64 odeint_hold netB FAST ?step ?int_step
      [0, ?step] [[0, 1], [0, 1]]"
    unfolding pyval.inject PFloat_list_eq vec_list_eq by simp
  have small: "exp (- pi) < 998 / 1000" using exp_minus_pi by simp
  have far: "\<not> \<bar>1 - exp (- pi)\<bar> < 1 / 10000000" using exp_minus_pi by simp
  have ops: "fadd exact 0 (1 / 10) = 1 / 10" "fsub exact 1 (exp (- pi)) = 1 - exp (- pi)"
    by (simp_all add: exact_def)
  have runE: "simulate_dynamic exact odeint_hold str_stub (netE, []) (998 / 1000) FAST False (1 / 10)
      (1 / 100) (1 / 10000000) =
     Some (Inr (PFloat (1 / 10), vec [pi, pi]), netE\<lparr>phases := [pi, pi]\<rparr>, [])"
    using small far
    by (simp add: simulate_dynamic_def dynamic_loop.simps netE_order netE_step netE_order_after ops)
  from simulate_dynamic_exit [THEN conjunct1, THEN mp, OF runE]
  have reach: "\<exists>current. fst (sync_local_order (netE\<lparr>phases := [pi, pi]\<rparr>)) = Inr current \<and>
      998 / 1000 \<le> current"
    by auto
  from runB stalled traj runE reach show ?thesis by blast
qed

text \<open>
  C10: when the collect flag is false and the local order of the network is already
  at least the requested order, the loop body never runs: \<open>simulate_dynamic\<close> returns
  the pair of two empty lists, the network and the output as they were, and not a
  final time with the final phase vector.
\<close>

theorem simulate_dynamic_no_iteration:
  assumes "consistent self" and "order \<le> local_order_formula self"
  shows "simulate_dynamic ar od str (self, out) order solution False step int_step
           threshold_changes = Some (Inr (PList [], PList []), self, out) \<and>
         (\<forall>t. simulate_dynamic ar od str (self, out) order solution False step int_step
                 threshold_changes \<noteq> Some (Inr (PFloat t, vec (phases self)), self, out))"
proof -
  from assms(1) have "sync_local_order self = (Inr (local_order_formula self), self)"
    by (rule sync_local_order_value)
  with assms(2) have "simulate_dynamic ar od str (self, out) order solution False step int_step
      threshold_changes = Some (Inr (PList [], PList []), self, out)"
    by (simp add: simulate_dynamic_def dynamic_loop.simps)
  then show ?thesis by simp
qed

theorem simulate_dynamic_no_iteration_witness:
  "consistent netA \<and> 4494592428115755 / 2 ^ 52 \<le> local_order_formula netA \<and>
   simulate_dynamic binary64 odeint_hold str_stub (netA, []) (4494592428115755 / 2 ^ 52) FAST False
     (3602879701896397 / 2 ^ 55) (5764607523034235 / 2 ^ 59) (944473296573929 / 2 ^ 73) =
     Some (Inr (PList [], PList []), netA, [])"
proof -
  have c: "consistent netA" by (simp add: consistent_def netA_def)
  have f: "local_order_formula netA = 1"
    by (simp add: local_order_formula_def connected_pairs_def netA_def upt_2)
  then have o: "4494592428115755 / 2 ^ 52 \<le> local_order_formula netA" by simp
  from simulate_dynamic_no_iteration [OF c o] c o show ?thesis by blast
qed

end
